theory Spec2Isabelle
  imports Complex_Main "HOL-Library.Word"
begin

unbundle bit_operations_syntax

section \<open>Data model of \<^verbatim>\<open>png_dpi_util.h\<close>\<close>

text \<open>
  Bytes are \<open>uint8_t\<close>, lengths and checksums are \<open>uint32_t\<close>. Values of type
  \<open>size_t\<close> (buffer offsets and sizes) are natural numbers: \<open>size_t\<close> is taken to be
  64 bits wide (the build targets are mingw64 and POSIX), every offset is at most
  \<open>MAX_PNG_SIZE + 64\<close> and every addend is below \<open>2^32\<close>, so no \<open>size_t\<close> sum of the
  source can wrap. Sums computed in \<open>uint32_t\<close> are words and do wrap.
\<close>

type_synonym u8 = "8 word"
type_synonym u32 = "32 word"

definition MAX_PNG_SIZE :: nat where
  "MAX_PNG_SIZE = 32 * 1024 * 1024"

text \<open>\<open>sizeof(PNG_OUT_BUF)\<close>\<close>

definition PNG_OUT_CAP :: nat where
  "PNG_OUT_CAP = MAX_PNG_SIZE + 64"

definition PNG_SIG_BYTES :: nat where
  "PNG_SIG_BYTES = 8"

definition PNG_SIG :: "u8 list" where
  "PNG_SIG = [0x89, 0x50, 0x4E, 0x47, 0x0D, 0x0A, 0x1A, 0x0A]"

text \<open>The three tags the source compares with \<open>memcmp\<close>: "pHYs", "IDAT", "IEND".\<close>

definition tag_pHYs :: "u8 list" where
  "tag_pHYs = [0x70, 0x48, 0x59, 0x73]"

definition tag_IDAT :: "u8 list" where
  "tag_IDAT = [0x49, 0x44, 0x41, 0x54]"

definition tag_IEND :: "u8 list" where
  "tag_IEND = [0x49, 0x45, 0x4E, 0x44]"

section \<open>CRC-32\<close>

text \<open>
  One round of the inner loop of \<open>_png_crc_make_table\<close>:
  \<open>c = (c & 1) ? (0xEDB88320U ^ (c >> 1)) : (c >> 1)\<close>.
\<close>

definition crc_table_round :: "u32 \<Rightarrow> u32" where
  "crc_table_round c = (if c AND 1 \<noteq> 0 then 0xEDB88320 XOR drop_bit 1 c else drop_bit 1 c)"

text \<open>
  \<open>_png_crc_make_table\<close>: entry \<open>n\<close> is eight rounds applied to \<open>n\<close>. The table is
  filled once, before its first use, and never changes afterwards, so the lazily
  initialised global is the constant list below.
\<close>

definition png_crc_table :: "u32 list" where
  "png_crc_table = map (\<lambda>n. (crc_table_round ^^ 8) (of_nat n)) [0..<256]"

text \<open>
  \<open>_png_crc32(buf, len, crc)\<close>. The index \<open>(crc ^ buf[i]) & 0xFF\<close> is below 256, so
  the table read is always in range.
\<close>

definition crc_update :: "u8 \<Rightarrow> u32 \<Rightarrow> u32" where
  "crc_update b crc = png_crc_table ! unat ((crc XOR ucast b) AND 0xFF) XOR drop_bit 8 crc"

definition png_crc32 :: "u8 list \<Rightarrow> u32 \<Rightarrow> u32" where
  "png_crc32 buf crc = fold crc_update buf (crc XOR 0xFFFFFFFF) XOR 0xFFFFFFFF"

text \<open>
  The reference the specification names: the bit-at-a-time reflected CRC-32 with
  polynomial \<open>0xEDB88320\<close>, initial value \<open>0xFFFFFFFF\<close> and final XOR \<open>0xFFFFFFFF\<close>.
  Each input byte is XORed into the low byte of the register, which is then shifted
  right eight times, the polynomial being XORed in whenever a one is shifted out.
\<close>

definition crc32_ref_shift :: "u32 \<Rightarrow> u32" where
  "crc32_ref_shift r = (if bit r 0 then drop_bit 1 r XOR 0xEDB88320 else drop_bit 1 r)"

definition crc32_ref_byte :: "u8 \<Rightarrow> u32 \<Rightarrow> u32" where
  "crc32_ref_byte b r = (crc32_ref_shift ^^ 8) (r XOR ucast b)"

definition crc32_reference :: "u8 list \<Rightarrow> u32" where
  "crc32_reference bs = fold crc32_ref_byte bs 0xFFFFFFFF XOR 0xFFFFFFFF"

section \<open>Big-endian words\<close>

text \<open>\<open>_png_read_u32_be\<close> reads \<open>b[0..3]\<close>; every caller has at least four bytes there.\<close>

definition png_read_u32_be :: "u8 list \<Rightarrow> u32" where
  "png_read_u32_be b =
     push_bit 24 (ucast (b ! 0)) OR push_bit 16 (ucast (b ! 1)) OR
     push_bit 8 (ucast (b ! 2)) OR ucast (b ! 3)"

definition png_write_u32_be :: "u32 \<Rightarrow> u8 list" where
  "png_write_u32_be v =
     [ucast (drop_bit 24 v), ucast (drop_bit 16 v), ucast (drop_bit 8 v), ucast v]"

section \<open>The conversion from DPI to pixels per meter\<close>

text \<open>
  \<open>_png_dpi_to_ppm\<close> and \<open>_png_round_u32\<close> compute in \<open>double\<close>, that is in IEEE 754
  binary64: 53 significant bits, each operation rounded to the nearest representable
  value, ties to the even significand. The Makefile compiles with \<open>-std=c99 -O0\<close>,
  so the product and the sum are two separately rounded operations.

  Every \<open>double\<close> that these two functions meet is a non-negative multiple of
  \<open>2^-47\<close>: the factor lies between 32 and 64, where the representable values are
  \<open>2^-47\<close> apart; \<open>dpi\<close> is an integer; the constants 0.5, 1.0 and 4294967295.0 are
  multiples of \<open>2^-47\<close>; and rounding a multiple of \<open>2^-47\<close> that is at least
  \<open>2^5\<close> gives a multiple of \<open>2^-47\<close>. The model therefore writes the \<open>double\<close>
  \<open>v\<close> as the natural number \<open>v * 2^47\<close>. No value comes near the overflow
  threshold of binary64, so the exponent range plays no role.

  \<open>bit_length n\<close> is the number of bits of \<open>n\<close>.
\<close>

fun bit_length :: "nat \<Rightarrow> nat" where
  "bit_length n = (if n = 0 then 0 else Suc (bit_length (n div 2)))"

declare bit_length.simps [simp del]

text \<open>
  The rounding of every binary64 operation: \<open>n\<close> is kept when it has at most 53
  bits, and otherwise its \<open>s = bit_length n - 53\<close> low bits are rounded away, to the
  nearest multiple of \<open>2^s\<close>, a tie going to the even multiple.
\<close>

definition binary64_round :: "nat \<Rightarrow> nat" where
  "binary64_round n =
     (let s = bit_length n - 53; q = n div 2 ^ s; r = n mod 2 ^ s
      in if 2 * r < 2 ^ s \<or> (2 * r = 2 ^ s \<and> even q) then q * 2 ^ s else (q + 1) * 2 ^ s)"

text \<open>
  \<open>const double factor = 39.37007874\<close>: the compiler converts the decimal literal
  \<open>3937007874 / 10^8\<close> to the nearest \<open>double\<close>, which is the nearest multiple of
  \<open>2^-47\<close>. In units of \<open>2^-47\<close> it is 5540845998219096, slightly less than the
  decimal value.
\<close>

definition png_factor :: nat where
  "png_factor =
     (let a = 3937007874 * 2 ^ 47; q = a div 10 ^ 8; r = a mod 10 ^ 8
      in if 2 * r < 10 ^ 8 \<or> (2 * r = 10 ^ 8 \<and> even q) then q else q + 1)"

text \<open>
  \<open>_png_round_u32(x)\<close>, with \<open>x\<close> in units of \<open>2^-47\<close>: the two comparisons with 1.0
  and 4294967295.0, then the sum \<open>x + 0.5\<close> rounded to binary64 and the conversion to
  \<open>uint32_t\<close>, which drops the fraction. On this branch the sum is below \<open>2^32\<close>,
  so the conversion is defined.
\<close>

definition png_round_u32 :: "nat \<Rightarrow> u32" where
  "png_round_u32 x =
     (if x \<le> 1 * 2 ^ 47 then 1
      else if x \<ge> 4294967295 * 2 ^ 47 then 4294967295
      else of_nat (binary64_round (x + 2 ^ 46) div 2 ^ 47))"

text \<open>
  \<open>_png_dpi_to_ppm(dpi)\<close>: a non-positive \<open>dpi\<close> becomes 1; \<open>dpi\<close> is converted to
  \<open>double\<close> exactly (an \<open>int\<close> has fewer than 53 bits) and multiplied by the factor,
  the product being rounded to binary64. The argument is an \<open>int\<close> of C; the model
  takes any integer.
\<close>

definition png_dpi_to_ppm :: "int \<Rightarrow> u32" where
  "png_dpi_to_ppm dpi =
     (let dpi = (if dpi \<le> 0 then 1 else dpi)
      in png_round_u32 (binary64_round (nat dpi * png_factor)))"

section \<open>The density chunk encoder\<close>

text \<open>
  The 21 bytes that \<open>_png_emit_pHYs_to_mem\<close> writes at \<open>dst + *dst_off\<close>: the length 9,
  the type "pHYs", the data (\<open>ppm\<close> for X, \<open>ppm\<close> for Y, unit 1) and the checksum,
  which is chained as in the source: first over "pHYs", then over the nine data bytes.
\<close>

definition pHYs_bytes :: "u32 \<Rightarrow> u8 list" where
  "pHYs_bytes ppm =
     (let payload = png_write_u32_be ppm @ png_write_u32_be ppm @ [1];
          crc = png_crc32 payload (png_crc32 tag_pHYs 0)
      in png_write_u32_be 9 @ tag_pHYs @ payload @ png_write_u32_be crc)"

text \<open>
  \<open>_png_emit_pHYs_to_mem(dst, dst_cap, dst_off, ppm)\<close>. The output buffer is the list
  of the bytes written so far, \<open>*dst_off\<close> is its length, and writing at
  \<open>dst + *dst_off\<close> while advancing the offset appends. The result is \<open>None\<close> where
  the source returns 0 (no room) and the extended buffer where it returns 1.
\<close>

definition png_emit_pHYs_to_mem :: "u8 list \<Rightarrow> nat \<Rightarrow> u32 \<Rightarrow> u8 list option" where
  "png_emit_pHYs_to_mem dst dst_cap ppm =
     (if length dst + 4 + 4 + 9 + 4 > dst_cap then None
      else Some (dst @ pHYs_bytes ppm))"

section \<open>The rebuild loop of \<open>update_png_dpi\<close>\<close>

text \<open>
  The \<open>while (p + 12 <= end)\<close> loop. \<open>rest\<close> is the input from \<open>p\<close> to \<open>end\<close>, \<open>out\<close>
  the bytes assembled in \<open>PNG_OUT_BUF\<close>, \<open>wrote_phys\<close> the flag of the source and \<open>ppm\<close>
  the value \<open>_png_dpi_to_ppm(dpi)\<close> computed before the loop. The result is
  \<open>Inl code\<close> where the source returns \<open>code\<close> from inside the loop and \<open>Inr out\<close>
  where the loop ends (by its condition or by the \<open>break\<close> after IEND).

  The malformed test \<open>(size_t)(end - p) < len + 4\<close> adds in \<open>uint32_t\<close>, so \<open>len + 4\<close>
  is a word sum and wraps for \<open>len \<ge> 2^32 - 4\<close>; the capacity test
  \<open>out_off + 4 + 4 + len + 4 > sizeof(PNG_OUT_BUF)\<close> adds in \<open>size_t\<close> and does not.
  When the wrapped test lets such a length through, \<open>p += len\<close> moves the cursor
  beyond \<open>end\<close>; \<open>drop\<close> then leaves the empty list, for which \<open>p + 12 <= end\<close> is
  false as it is for the out-of-range pointer. The \<open>memcpy\<close> of the chunk is only
  reached after the capacity test, which bounds \<open>len\<close> by \<open>sizeof(PNG_OUT_BUF) - 12\<close>:
  its size \<open>4 + 4 + len + 4\<close>, a \<open>uint32_t\<close> sum, does not wrap there, and it
  reads inside the input.
\<close>

function scan_loop :: "u32 \<Rightarrow> u8 list \<Rightarrow> u8 list \<Rightarrow> bool \<Rightarrow> nat + u8 list" where
  "scan_loop ppm rest out wrote_phys =
     (if length rest < 12 then Inr out
      else
        let len = png_read_u32_be rest;
            type = take 4 (drop 4 rest);
            body = drop 8 rest
        in
          if length body < unat (len + 4) then Inl 21
          else
            let next = drop (unat len + 4) body in
            if type = tag_pHYs then scan_loop ppm next out wrote_phys
            else
              (case (if \<not> wrote_phys \<and> type = tag_IDAT
                     then png_emit_pHYs_to_mem out PNG_OUT_CAP ppm
                     else Some out) of
                 None \<Rightarrow> Inl 22
               | Some out1 \<Rightarrow>
                   if length out1 + 4 + 4 + unat len + 4 > PNG_OUT_CAP then Inl 23
                   else
                     let out2 = out1 @ take (4 + 4 + unat len + 4) rest in
                     if type = tag_IEND then Inr out2
                     else scan_loop ppm next out2 (wrote_phys \<or> type = tag_IDAT)))"
  by pat_completeness auto
termination
  by (relation "measure (\<lambda>(ppm, rest, out, wrote_phys). length rest)") auto

declare scan_loop.simps [simp del]

text \<open>
  The part of \<open>update_png_dpi\<close> between reading the file and writing it back: the
  signature check (return 3), the copy of the signature and the loop. \<open>input\<close> is
  the content of \<open>PNG_IN_BUF\<close>, \<open>in_sz\<close> its length.
\<close>

definition rebuild_png :: "u32 \<Rightarrow> u8 list \<Rightarrow> nat + u8 list" where
  "rebuild_png ppm input =
     (if length input < PNG_SIG_BYTES \<or> take PNG_SIG_BYTES input \<noteq> PNG_SIG then Inl 3
      else scan_loop ppm (drop PNG_SIG_BYTES input) (take PNG_SIG_BYTES input) False)"

section \<open>The file system around the rebuild\<close>

text \<open>
  A file system maps a path to the bytes of the file there. The outcomes of the
  C library calls that the content of the files does not decide are the fields of
  \<open>io_env\<close>: whether each call succeeds, the count that \<open>fwrite\<close> returns, and
  \<open>on_disk\<close>, the number of bytes of the output that have reached the file when
  \<open>fwrite\<close> or \<open>fclose\<close> fails. The C library buffers the output, so that a failed
  \<open>fclose\<close> (or a short \<open>fwrite\<close>) leaves some prefix of the output in the file,
  and which prefix is not decided by the arguments of the calls.
\<close>

type_synonym filesystem = "string \<rightharpoonup> u8 list"

record io_env =
  fopen_rb_ok :: bool
  fseek_end_ok :: bool
  ftell_ok :: bool
  fseek_set_ok :: bool
  fread_ok :: bool
  fopen_wb_ok :: bool
  fwrite_count :: nat
  fclose_ok :: bool
  on_disk :: nat

text \<open>
  \<open>update_png_dpi(path, dpi)\<close>, returning the status and the file system it leaves.
  \<open>path = None\<close> is the null pointer. The function reads \<open>dpi\<close> only in
  \<open>_png_dpi_to_ppm(dpi)\<close>, so the model takes the converted value \<open>ppm\<close>, which is
  \<open>png_dpi_to_ppm dpi\<close>, in its place; what is proved for every \<open>ppm\<close> holds for
  every \<open>dpi\<close>. \<open>fopen(path, "wb")\<close> truncates the file; after a short \<open>fwrite\<close>
  (return 24) or a failed \<open>fclose\<close> (return 30) the file holds the first \<open>on_disk\<close>
  bytes of the output.
\<close>

definition update_png_dpi ::
  "io_env \<Rightarrow> filesystem \<Rightarrow> string option \<Rightarrow> u32 \<Rightarrow> nat \<times> filesystem" where
  "update_png_dpi io fs path ppm =
     (case path of
        None \<Rightarrow> (31, fs)
      | Some pa \<Rightarrow>
          (case (if fopen_rb_ok io then fs pa else None) of
             None \<Rightarrow> (1, fs)
           | Some content \<Rightarrow>
               if \<not> fseek_end_ok io then (3, fs)
               else if \<not> ftell_ok io then (3, fs)
               else if \<not> fseek_set_ok io then (3, fs)
               else if length content > MAX_PNG_SIZE then (4, fs)
               else if \<not> fread_ok io then (3, fs)
               else
                 (case rebuild_png ppm content of
                    Inl code \<Rightarrow> (code, fs)
                  | Inr out \<Rightarrow>
                      if \<not> fopen_wb_ok io then (2, fs)
                      else if fwrite_count io < length out
                        then (24, fs(pa \<mapsto> take (on_disk io) out))
                      else if \<not> fclose_ok io then (30, fs(pa \<mapsto> take (on_disk io) out))
                      else (0, fs(pa \<mapsto> out)))))"

section \<open>The chunk stream as the scanner reads it\<close>

text \<open>
  A chunk as the loop decodes it: the declared length, the type tag, and the bytes
  \<open>type - 4 .. type + 4 + len + 4\<close> that the loop copies (length field, type, data
  and stored CRC, as read).
\<close>

record chunk =
  c_len :: u32
  c_type :: "u8 list"
  c_bytes :: "u8 list"

text \<open>
  The sequence of chunks that the loop of \<open>update_png_dpi\<close> steps through: the same
  reads, the same malformed test (\<open>None\<close>), the same two ways of ending (fewer than 12
  bytes left, or the chunk tagged IEND), without the filtering and copying.
\<close>

function chunks_of :: "u8 list \<Rightarrow> chunk list option" where
  "chunks_of rest =
     (if length rest < 12 then Some []
      else
        let len = png_read_u32_be rest;
            type = take 4 (drop 4 rest);
            body = drop 8 rest
        in
          if length body < unat (len + 4) then None
          else
            let c = \<lparr>c_len = len, c_type = type, c_bytes = take (4 + 4 + unat len + 4) rest\<rparr>
            in if type = tag_IEND then Some [c]
               else map_option ((#) c) (chunks_of (drop (unat len + 4) body)))"
  by pat_completeness auto
termination
  by (relation "measure length") auto

declare chunks_of.simps [simp del]

text \<open>The chunk that \<open>_png_emit_pHYs_to_mem\<close> writes, as a chunk record.\<close>

definition pHYs_chunk :: "u32 \<Rightarrow> chunk" where
  "pHYs_chunk ppm =
     \<lparr>c_len = 9, c_type = tag_pHYs, c_bytes = pHYs_bytes ppm\<rparr>"

text \<open>
  The filter and inject policy of the loop body on a list of chunks: a chunk tagged
  pHYs is dropped, the synthesized chunk goes in front of the first IDAT chunk met
  while \<open>wrote_phys\<close> is still false, everything else is kept.
\<close>

fun patch_chunks :: "u32 \<Rightarrow> bool \<Rightarrow> chunk list \<Rightarrow> chunk list" where
  "patch_chunks ppm wrote_phys [] = []"
| "patch_chunks ppm wrote_phys (c # cs) =
     (if c_type c = tag_pHYs then patch_chunks ppm wrote_phys cs
      else if \<not> wrote_phys \<and> c_type c = tag_IDAT
        then pHYs_chunk ppm # c # patch_chunks ppm True cs
      else c # patch_chunks ppm wrote_phys cs)"

text \<open>The bytes of a list of chunks, one after the other.\<close>

definition chunk_stream :: "chunk list \<Rightarrow> u8 list" where
  "chunk_stream cs = concat (map c_bytes cs)"

text \<open>
  A chunk whose bytes are exactly its length field, type, data and CRC, and which
  fits the output buffer.
\<close>

definition wf_chunk :: "chunk \<Rightarrow> bool" where
  "wf_chunk c \<longleftrightarrow>
     length (c_bytes c) = 12 + unat (c_len c) \<and>
     12 + unat (c_len c) \<le> PNG_OUT_CAP \<and>
     png_read_u32_be (c_bytes c) = c_len c \<and>
     take 4 (drop 4 (c_bytes c)) = c_type c"

text \<open>A list of such chunks in which IEND, if present, is the last one.\<close>

fun wf_stream :: "chunk list \<Rightarrow> bool" where
  "wf_stream [] = True"
| "wf_stream (c # cs) = (wf_chunk c \<and> (c_type c \<noteq> tag_IEND \<or> cs = []) \<and> wf_stream cs)"

section \<open>Concrete files\<close>

text \<open>
  A small file in the PNG container format: the signature, then chunks tagged IHDR
  (1 data byte), pHYs (9 data bytes), IDAT (2 data bytes), IDAT (no data) and IEND.
  The stored CRCs of the first four chunks are arbitrary: the loop never checks them.
\<close>

definition sample_png :: "u8 list" where
  "sample_png =
     [0x89, 0x50, 0x4E, 0x47, 0x0D, 0x0A, 0x1A, 0x0A,
      0, 0, 0, 1, 0x49, 0x48, 0x44, 0x52, 7, 1, 2, 3, 4,
      0, 0, 0, 9, 0x70, 0x48, 0x59, 0x73, 0, 0, 0, 1, 0, 0, 0, 1, 0, 9, 9, 9, 9,
      0, 0, 0, 2, 0x49, 0x44, 0x41, 0x54, 5, 6, 1, 1, 1, 1,
      0, 0, 0, 0, 0x49, 0x44, 0x41, 0x54, 2, 2, 2, 2,
      0, 0, 0, 0, 0x49, 0x45, 0x4E, 0x44, 0xAE, 0x42, 0x60, 0x82]"

definition sample_chunks :: "chunk list" where
  "sample_chunks =
     [\<lparr>c_len = 1, c_type = [0x49, 0x48, 0x44, 0x52],
       c_bytes = [0, 0, 0, 1, 0x49, 0x48, 0x44, 0x52, 7, 1, 2, 3, 4]\<rparr>,
      \<lparr>c_len = 9, c_type = [0x70, 0x48, 0x59, 0x73],
       c_bytes = [0, 0, 0, 9, 0x70, 0x48, 0x59, 0x73, 0, 0, 0, 1, 0, 0, 0, 1, 0, 9, 9, 9, 9]\<rparr>,
      \<lparr>c_len = 2, c_type = [0x49, 0x44, 0x41, 0x54],
       c_bytes = [0, 0, 0, 2, 0x49, 0x44, 0x41, 0x54, 5, 6, 1, 1, 1, 1]\<rparr>,
      \<lparr>c_len = 0, c_type = [0x49, 0x44, 0x41, 0x54],
       c_bytes = [0, 0, 0, 0, 0x49, 0x44, 0x41, 0x54, 2, 2, 2, 2]\<rparr>,
      \<lparr>c_len = 0, c_type = [0x49, 0x45, 0x4E, 0x44],
       c_bytes = [0, 0, 0, 0, 0x49, 0x45, 0x4E, 0x44, 0xAE, 0x42, 0x60, 0x82]\<rparr>]"

text \<open>The same file with its pHYs chunk replaced by the one for 11811 pixels per meter.\<close>

definition sample_out :: "u8 list" where
  "sample_out =
     [0x89, 0x50, 0x4E, 0x47, 0x0D, 0x0A, 0x1A, 0x0A,
      0, 0, 0, 1, 0x49, 0x48, 0x44, 0x52, 7, 1, 2, 3, 4,
      0, 0, 0, 9, 0x70, 0x48, 0x59, 0x73, 0, 0, 0x2E, 0x23, 0, 0, 0x2E, 0x23, 1,
      0x78, 0xA5, 0x3F, 0x76,
      0, 0, 0, 2, 0x49, 0x44, 0x41, 0x54, 5, 6, 1, 1, 1, 1,
      0, 0, 0, 0, 0x49, 0x44, 0x41, 0x54, 2, 2, 2, 2,
      0, 0, 0, 0, 0x49, 0x45, 0x4E, 0x44, 0xAE, 0x42, 0x60, 0x82]"

text \<open>
  The signature followed by twelve bytes: declared length \<open>0xFFFFFFFC\<close>, a type tag
  and four more bytes. The first is tagged pHYs, the second IHDR.
\<close>

definition wrapped_pHYs_png :: "u8 list" where
  "wrapped_pHYs_png =
     [0x89, 0x50, 0x4E, 0x47, 0x0D, 0x0A, 0x1A, 0x0A,
      0xFF, 0xFF, 0xFF, 0xFC, 0x70, 0x48, 0x59, 0x73, 0, 0, 0, 0]"

definition wrapped_IHDR_png :: "u8 list" where
  "wrapped_IHDR_png =
     [0x89, 0x50, 0x4E, 0x47, 0x0D, 0x0A, 0x1A, 0x0A,
      0xFF, 0xFF, 0xFF, 0xFC, 0x49, 0x48, 0x44, 0x52, 0, 0, 0, 0]"


text \<open>
  The signature followed by the header of an IDAT chunk that declares nine data
  bytes, and four bytes more.
\<close>

definition overrun_png :: "u8 list" where
  "overrun_png =
     [0x89, 0x50, 0x4E, 0x47, 0x0D, 0x0A, 0x1A, 0x0A,
      0, 0, 0, 9, 0x49, 0x44, 0x41, 0x54, 0, 0, 0, 0]"

text \<open>An environment in which every library call succeeds and \<open>fwrite\<close> writes everything.\<close>

definition io_all_ok :: io_env where
  "io_all_ok =
     \<lparr>fopen_rb_ok = True, fseek_end_ok = True, ftell_ok = True, fseek_set_ok = True,
      fread_ok = True, fopen_wb_ok = True, fwrite_count = MAX_PNG_SIZE + 64, fclose_ok = True,
      on_disk = MAX_PNG_SIZE + 64\<rparr>"

section \<open>Checksum lemmas\<close>

lemma crc_table_round_eq_ref: "crc_table_round c = crc32_ref_shift c"
proof -
  have "(c AND 1 \<noteq> 0) = bit c 0"
    by (simp add: and_one_eq bit_0 mod_2_eq_odd)
  then show ?thesis
    by (simp add: crc_table_round_def crc32_ref_shift_def xor.commute)
qed

lemma ref_shift_xor: "crc32_ref_shift (a XOR b) = crc32_ref_shift a XOR crc32_ref_shift b"
proof -
  have dx: "drop_bit 1 (a XOR b) = drop_bit 1 a XOR drop_bit 1 b"
    by (rule bit_eqI) (simp add: bit_simps)
  show ?thesis
    unfolding crc32_ref_shift_def dx by (simp add: bit_xor_iff ac_simps)
qed
  
lemma ref_shift_pow_xor:
  "(crc32_ref_shift ^^ k) (a XOR b) = (crc32_ref_shift ^^ k) a XOR (crc32_ref_shift ^^ k) b"
  by (induction k arbitrary: a b) (simp_all add: ref_shift_xor)

lemma ref_shift_pow_high:
  "take_bit k y = 0 \<Longrightarrow> (crc32_ref_shift ^^ k) y = drop_bit k y"
proof (induction k arbitrary: y)
  case 0
  then show ?case by simp
next
  case (Suc k)
  have "bit (take_bit (Suc k) y) 0 = bit y 0"
    by (simp add: bit_take_bit_iff)
  with Suc.prems have b0: "\<not> bit y 0" by simp
  have "take_bit k (drop_bit 1 y) = drop_bit 1 (take_bit (Suc k) y)"
    by (simp add: take_bit_drop_bit)
  with Suc.prems have t: "take_bit k (drop_bit 1 y) = 0" by simp
  have "(crc32_ref_shift ^^ Suc k) y = (crc32_ref_shift ^^ k) (crc32_ref_shift y)"
    by (simp add: funpow_swap1)
  also have "\<dots> = (crc32_ref_shift ^^ k) (drop_bit 1 y)"
    using b0 by (simp add: crc32_ref_shift_def)
  also have "\<dots> = drop_bit k (drop_bit 1 y)"
    using t by (rule Suc.IH)
  finally show ?case by (simp add: drop_bit_drop_bit)
qed

lemma split_low_high: "(x :: u32) = take_bit k x XOR push_bit k (drop_bit k x)"
  by (rule bit_eqI) (auto simp add: bit_simps dest: bit_imp_le_length)

lemma ref_shift_pow_split:
  "(crc32_ref_shift ^^ k) x = (crc32_ref_shift ^^ k) (take_bit k x) XOR drop_bit k x"
proof -
  have "(crc32_ref_shift ^^ k) x = (crc32_ref_shift ^^ k) (take_bit k x XOR push_bit k (drop_bit k x))"
    using split_low_high [of x k] by simp
  also have "\<dots> = (crc32_ref_shift ^^ k) (take_bit k x) XOR (crc32_ref_shift ^^ k) (push_bit k (drop_bit k x))"
    by (rule ref_shift_pow_xor)
  also have "(crc32_ref_shift ^^ k) (push_bit k (drop_bit k x)) = drop_bit k (push_bit k (drop_bit k x))"
    by (rule ref_shift_pow_high) (simp add: take_bit_push_bit)
  also have "drop_bit k (push_bit k (drop_bit k x)) = drop_bit k x"
    by (rule bit_eqI) (auto simp add: bit_simps dest: bit_imp_le_length)
  finally show ?thesis .
qed

lemma table_entry: "n < 256 \<Longrightarrow> png_crc_table ! n = (crc32_ref_shift ^^ 8) (of_nat n)"
proof -
  have "crc_table_round = crc32_ref_shift"
    by (rule ext) (rule crc_table_round_eq_ref)
  then show "n < 256 \<Longrightarrow> png_crc_table ! n = (crc32_ref_shift ^^ 8) (of_nat n)"
    by (simp add: png_crc_table_def)
qed

lemma crc_update_eq_ref: "crc_update b c = crc32_ref_byte b c"
proof -
  define x where "x = c XOR ucast b"
  have m: "x AND 0xFF = take_bit 8 x"
    by (simp add: take_bit_eq_mask mask_eq_exp_minus_1)
  have "unat (take_bit 8 x) = take_bit 8 (unat x)"
    by (simp add: unsigned_take_bit_eq)
  also have "\<dots> < 2 ^ 8"
    by (rule take_bit_nat_less_exp)
  finally have lt: "unat (take_bit 8 x) < 256" by simp
  have d: "drop_bit 8 c = drop_bit 8 x"
    unfolding x_def by (rule bit_eqI) (auto simp add: bit_simps dest: bit_imp_le_length)
  have "crc_update b c = png_crc_table ! unat (take_bit 8 x) XOR drop_bit 8 x"
    by (simp add: crc_update_def m d flip: x_def)
  also have "\<dots> = (crc32_ref_shift ^^ 8) (take_bit 8 x) XOR drop_bit 8 x"
    using lt by (simp add: table_entry)
  also have "\<dots> = (crc32_ref_shift ^^ 8) x"
    by (rule ref_shift_pow_split [symmetric])
  finally show ?thesis by (simp add: crc32_ref_byte_def x_def)
qed

lemma crc_update_is_ref: "crc_update = crc32_ref_byte"
  by (intro ext) (rule crc_update_eq_ref)

text \<open>
  Claim C9: for every byte sequence the table-driven checksum \<open>_png_crc32\<close> (started
  from \<open>crc = 0\<close>, as every caller starts it) equals the bit-at-a-time reflected
  CRC-32 with polynomial \<open>0xEDB88320\<close> and initial and final XOR \<open>0xFFFFFFFF\<close>.
\<close>

theorem png_crc32_is_reference: "png_crc32 bs 0 = crc32_reference bs"
  by (simp add: png_crc32_def crc32_reference_def crc_update_is_ref)

lemma png_crc32_append: "png_crc32 (a @ b) c = png_crc32 b (png_crc32 a c)"
  by (simp add: png_crc32_def xor.assoc)

section \<open>Lemmas about the loop\<close>

lemma length_write_u32 [simp]: "length (png_write_u32_be v) = 4"
  by (simp add: png_write_u32_be_def)

lemma tag_lengths [simp]:
  "length tag_pHYs = 4" "length tag_IDAT = 4" "length tag_IEND = 4" "length PNG_SIG = 8"
  by (simp_all add: tag_pHYs_def tag_IDAT_def tag_IEND_def PNG_SIG_def)

lemma tags_distinct [simp]:
  "tag_pHYs \<noteq> tag_IDAT" "tag_pHYs \<noteq> tag_IEND" "tag_IDAT \<noteq> tag_IEND"
  "tag_IDAT \<noteq> tag_pHYs" "tag_IEND \<noteq> tag_pHYs" "tag_IEND \<noteq> tag_IDAT"
  by (simp_all add: tag_pHYs_def tag_IDAT_def tag_IEND_def)

lemma cap_value: "PNG_OUT_CAP = 33554496"
  by (simp add: PNG_OUT_CAP_def MAX_PNG_SIZE_def)

lemma emit_eq:
  "png_emit_pHYs_to_mem dst cap ppm =
     (if length dst + 21 > cap then None else Some (dst @ c_bytes (pHYs_chunk ppm)))"
  by (simp add: png_emit_pHYs_to_mem_def pHYs_chunk_def pHYs_bytes_def Let_def)

lemma length_pHYs_chunk [simp]: "length (c_bytes (pHYs_chunk ppm)) = 21"
  by (simp add: png_emit_pHYs_to_mem_def pHYs_chunk_def pHYs_bytes_def Let_def)

lemma type_pHYs_chunk [simp]: "c_type (pHYs_chunk ppm) = tag_pHYs"
  by (simp add: pHYs_chunk_def)

lemma read_u32_append: "4 \<le> length xs \<Longrightarrow> png_read_u32_be (xs @ ys) = png_read_u32_be xs"
  by (auto simp add: png_read_u32_be_def nth_append)

lemma read_u32_take: "4 \<le> n \<Longrightarrow> png_read_u32_be (take n xs) = png_read_u32_be xs"
  by (simp add: png_read_u32_be_def)

lemma read_u32_nine: "png_read_u32_be (png_write_u32_be 9 @ xs) = 9"
  by (simp add: png_read_u32_be_def png_write_u32_be_def)

lemma wf_pHYs_chunk [simp]: "wf_chunk (pHYs_chunk ppm)"
  by (simp add: wf_chunk_def cap_value)
     (simp add: pHYs_chunk_def pHYs_bytes_def Let_def read_u32_nine)

lemma unat_len_plus4:
  fixes len :: u32
  assumes "12 + unat len \<le> PNG_OUT_CAP"
  shows "unat (len + 4) = unat len + 4"
proof -
  have "unat len + unat (4 :: u32) < 2 ^ LENGTH(32)"
    using assms by (simp add: cap_value)
  then have "unat (len + 4) = unat len + unat (4 :: u32)"
    by (simp only: unat_add_lem)
  then show ?thesis by simp
qed

lemma chunk_stream_simps [simp]:
  "chunk_stream [] = []"
  "chunk_stream (c # cs) = c_bytes c @ chunk_stream cs"
  "chunk_stream (xs @ ys) = chunk_stream xs @ chunk_stream ys"
  by (simp_all add: chunk_stream_def)

text \<open>One iteration of the loop, in terms of the chunk it decodes.\<close>

lemma scan_loop_short: "length rest < 12 \<Longrightarrow> scan_loop ppm rest out w = Inr out"
  by (simp add: scan_loop.simps)

lemma chunks_of_short: "length rest < 12 \<Longrightarrow> chunks_of rest = Some []"
  by (simp add: chunks_of.simps)

lemma scan_loop_malformed:
  "12 \<le> length rest \<Longrightarrow> length rest - 8 < unat (png_read_u32_be rest + 4) \<Longrightarrow>
   scan_loop ppm rest out w = Inl 21"
  by (simp add: scan_loop.simps [of ppm rest] Let_def)

lemma chunks_of_malformed:
  "12 \<le> length rest \<Longrightarrow> length rest - 8 < unat (png_read_u32_be rest + 4) \<Longrightarrow>
   chunks_of rest = None"
  by (simp add: chunks_of.simps [of rest] Let_def)

lemma scan_loop_step:
  assumes "12 \<le> length rest" "\<not> length rest - 8 < unat (png_read_u32_be rest + 4)"
  shows "scan_loop ppm rest out w =
     (let len = png_read_u32_be rest; type = take 4 (drop 4 rest); nxt = drop (unat len + 12) rest in
      if type = tag_pHYs then scan_loop ppm nxt out w
      else if \<not> w \<and> type = tag_IDAT \<and> length out + 21 > PNG_OUT_CAP then Inl 22
      else
        let out1 = (if \<not> w \<and> type = tag_IDAT then out @ c_bytes (pHYs_chunk ppm) else out) in
        if length out1 + 12 + unat len > PNG_OUT_CAP then Inl 23
        else if type = tag_IEND then Inr (out1 @ take (12 + unat len) rest)
        else scan_loop ppm nxt (out1 @ take (12 + unat len) rest) (w \<or> type = tag_IDAT))"
  using assms
  by (simp add: scan_loop.simps [of ppm rest] Let_def emit_eq add.commute)

lemma chunks_of_step:
  assumes "12 \<le> length rest" "\<not> length rest - 8 < unat (png_read_u32_be rest + 4)"
  shows "chunks_of rest =
     (let len = png_read_u32_be rest; type = take 4 (drop 4 rest);
          c = \<lparr>c_len = len, c_type = type, c_bytes = take (12 + unat len) rest\<rparr>
      in if type = tag_IEND then Some [c]
         else map_option ((#) c) (chunks_of (drop (unat len + 12) rest)))"
  using assms
  by (simp add: chunks_of.simps [of rest] Let_def add.commute)

lemma decoded_chunk_wf:
  assumes "12 \<le> length rest" "\<not> length rest - 8 < unat (png_read_u32_be rest + 4)"
    and "12 + unat (png_read_u32_be rest) \<le> PNG_OUT_CAP"
  shows "wf_chunk \<lparr>c_len = png_read_u32_be rest, c_type = take 4 (drop 4 rest),
                  c_bytes = take (12 + unat (png_read_u32_be rest)) rest\<rparr>"
proof -
  have "unat (png_read_u32_be rest + 4) = unat (png_read_u32_be rest) + 4"
    using assms(3) by (rule unat_len_plus4)
  with assms have "12 + unat (png_read_u32_be rest) \<le> length rest" by simp
  then show ?thesis
    using assms(3) by (simp add: wf_chunk_def read_u32_take drop_take min_def)
qed

lemma scan_loop_Inr:
  assumes "scan_loop ppm rest out w = Inr out'" "length out \<le> PNG_OUT_CAP"
  shows "\<exists>cs. chunks_of rest = Some cs \<and>
              out' = out @ chunk_stream (patch_chunks ppm w cs) \<and>
              wf_stream (patch_chunks ppm w cs) \<and> length out' \<le> PNG_OUT_CAP"
  using assms
proof (induction "length rest" arbitrary: rest out w rule: less_induct)
  case less
  show ?case
  proof (cases "length rest < 12")
    case True
    with less.prems show ?thesis
      by (simp add: scan_loop_short chunks_of_short)
  next
    case False
    then have long: "12 \<le> length rest" by simp
    define len where "len = png_read_u32_be rest"
    define type where "type = take 4 (drop 4 rest)"
    define nxt where "nxt = drop (unat len + 12) rest"
    define c where "c = \<lparr>c_len = len, c_type = type, c_bytes = take (12 + unat len) rest\<rparr>"
    have ok: "\<not> length rest - 8 < unat (png_read_u32_be rest + 4)"
      using less.prems(1) long by (auto simp add: scan_loop_malformed)
    have shorter: "length nxt < length rest"
      using long by (simp add: nxt_def)
    have ch: "chunks_of rest =
        (if type = tag_IEND then Some [c] else map_option ((#) c) (chunks_of nxt))"
      using chunks_of_step [OF long ok] by (simp add: Let_def len_def type_def nxt_def c_def)
    have ty: "c_type c = type" by (simp add: c_def)
    note step = scan_loop_step [OF long ok, of ppm out w, unfolded Let_def,
        folded len_def type_def, folded nxt_def]
    show ?thesis
    proof (cases "type = tag_pHYs")
      case True
      with step less.prems(1) have "scan_loop ppm nxt out w = Inr out'" by simp
      from less.hyps [OF shorter this less.prems(2)] obtain cs where
        "chunks_of nxt = Some cs" "out' = out @ chunk_stream (patch_chunks ppm w cs)"
        "wf_stream (patch_chunks ppm w cs)" "length out' \<le> PNG_OUT_CAP" by blast
      with True ch ty show ?thesis by simp
    next
      case notphys: False
      define inject where "inject \<longleftrightarrow> \<not> w \<and> type = tag_IDAT"
      define out1 where "out1 = (if inject then out @ c_bytes (pHYs_chunk ppm) else out)"
      have no22: "\<not> (inject \<and> length out + 21 > PNG_OUT_CAP)"
        using step less.prems(1) notphys by (auto simp add: inject_def)
      have no23: "length out1 + 12 + unat len \<le> PNG_OUT_CAP"
        using step less.prems(1) notphys no22
        by (auto simp add: inject_def out1_def split: if_splits)
      then have "12 + unat len \<le> PNG_OUT_CAP" by simp
      then have wfc: "wf_chunk c"
        unfolding c_def type_def len_def
        using decoded_chunk_wf [OF long ok] by (simp add: len_def)
      then have lenc: "length (c_bytes c) = 12 + unat len"
        by (simp add: wf_chunk_def c_def)
      have pc: "patch_chunks ppm w (c # cs) =
          (if inject then pHYs_chunk ppm # c # patch_chunks ppm True cs
           else c # patch_chunks ppm w cs)" for cs
        using notphys by (simp add: ty inject_def)
      have out1c: "out1 @ c_bytes c = out @ chunk_stream (patch_chunks ppm w [c])"
        using pc [of "[]"] by (simp add: out1_def)
      have len2: "length (out1 @ c_bytes c) \<le> PNG_OUT_CAP"
        using no23 lenc by simp
      show ?thesis
      proof (cases "type = tag_IEND")
        case True
        with step less.prems(1) notphys no22 no23
        have "out' = out1 @ c_bytes c"
          by (auto simp add: inject_def out1_def c_def split: if_splits)
        moreover have "wf_stream (patch_chunks ppm w [c])"
          using wfc pc [of "[]"] by simp
        ultimately show ?thesis
          using True ch out1c len2 by simp
      next
        case notend: False
        with step less.prems(1) notphys no22 no23
        have "scan_loop ppm nxt (out1 @ c_bytes c) (w \<or> type = tag_IDAT) = Inr out'"
          by (auto simp add: inject_def out1_def c_def split: if_splits)
        from less.hyps [OF shorter this len2] obtain cs where cs:
          "chunks_of nxt = Some cs"
          "out' = (out1 @ c_bytes c) @ chunk_stream (patch_chunks ppm (w \<or> type = tag_IDAT) cs)"
          "wf_stream (patch_chunks ppm (w \<or> type = tag_IDAT) cs)"
          "length out' \<le> PNG_OUT_CAP" by blast
        have w': "patch_chunks ppm (w \<or> type = tag_IDAT) cs =
            (if inject then patch_chunks ppm True cs else patch_chunks ppm w cs)"
          by (cases w) (auto simp add: inject_def)
        have "chunks_of rest = Some (c # cs)"
          using ch notend cs(1) by simp
        moreover have "out' = out @ chunk_stream (patch_chunks ppm w (c # cs))"
          using cs(2) w' pc [of cs] by (simp add: out1_def)
        moreover have "wf_stream (patch_chunks ppm w (c # cs))"
          unfolding pc using cs(3) [unfolded w'] wfc notend ty
          by (cases inject) simp_all
        ultimately show ?thesis using cs(4) by blast
      qed
    qed
  qed
qed

text \<open>The loop and the scanner on the bytes of a well-formed chunk followed by more input.\<close>

lemma wf_chunk_decode:
  assumes "wf_chunk c"
  shows "12 \<le> length (c_bytes c @ rs)"
    and "\<not> length (c_bytes c @ rs) - 8 < unat (png_read_u32_be (c_bytes c @ rs) + 4)"
    and "png_read_u32_be (c_bytes c @ rs) = c_len c"
    and "take 4 (drop 4 (c_bytes c @ rs)) = c_type c"
    and "take (12 + unat (c_len c)) (c_bytes c @ rs) = c_bytes c"
    and "drop (unat (c_len c) + 12) (c_bytes c @ rs) = rs"
proof -
  from assms have len: "length (c_bytes c) = 12 + unat (c_len c)"
    and cap: "12 + unat (c_len c) \<le> PNG_OUT_CAP"
    and rd: "png_read_u32_be (c_bytes c) = c_len c"
    and ty: "take 4 (drop 4 (c_bytes c)) = c_type c"
    by (simp_all add: wf_chunk_def)
  show "12 \<le> length (c_bytes c @ rs)" using len by simp
  show r: "png_read_u32_be (c_bytes c @ rs) = c_len c"
    using len rd by (simp add: read_u32_append)
  show "\<not> length (c_bytes c @ rs) - 8 < unat (png_read_u32_be (c_bytes c @ rs) + 4)"
    using len unat_len_plus4 [OF cap] by (simp add: r)
  show "take 4 (drop 4 (c_bytes c @ rs)) = c_type c"
    using len ty by simp
  show "take (12 + unat (c_len c)) (c_bytes c @ rs) = c_bytes c"
    using len by simp
  show "drop (unat (c_len c) + 12) (c_bytes c @ rs) = rs"
    using len by (simp add: add.commute)
qed

lemma scan_loop_wf_chunk:
  assumes "wf_chunk c"
  shows "scan_loop ppm (c_bytes c @ rs) out w =
     (if c_type c = tag_pHYs then scan_loop ppm rs out w
      else if \<not> w \<and> c_type c = tag_IDAT \<and> length out + 21 > PNG_OUT_CAP then Inl 22
      else
        let out1 = (if \<not> w \<and> c_type c = tag_IDAT then out @ c_bytes (pHYs_chunk ppm) else out) in
        if length out1 + 12 + unat (c_len c) > PNG_OUT_CAP then Inl 23
        else if c_type c = tag_IEND then Inr (out1 @ c_bytes c)
        else scan_loop ppm rs (out1 @ c_bytes c) (w \<or> c_type c = tag_IDAT))"
  using scan_loop_step [OF wf_chunk_decode(1,2) [OF assms], where ppm = ppm and out = out and w = w]
  by (simp only: Let_def wf_chunk_decode(3-6) [OF assms])

lemma chunks_of_wf_chunk:
  assumes "wf_chunk c"
  shows "chunks_of (c_bytes c @ rs) =
     (if c_type c = tag_IEND then Some [c] else map_option ((#) c) (chunks_of rs))"
proof -
  have "\<lparr>c_len = c_len c, c_type = c_type c, c_bytes = c_bytes c\<rparr> = c" by simp
  then show ?thesis
    using chunks_of_step [OF wf_chunk_decode(1,2) [OF assms, of rs]]
    by (simp only: Let_def wf_chunk_decode(3-6) [OF assms])
qed

lemma chunks_of_stream:
  "wf_stream ws \<Longrightarrow>
   chunks_of (chunk_stream ws @ tail) =
     (if ws \<noteq> [] \<and> c_type (last ws) = tag_IEND then Some ws
      else map_option ((@) ws) (chunks_of tail))"
proof (induction ws)
  case Nil
  then show ?case by (cases "chunks_of tail") simp_all
next
  case (Cons c ws)
  then show ?case
    by (auto simp add: chunks_of_wf_chunk option.map_comp comp_def)
qed

lemma patch_chunks_stream_length:
  "length (chunk_stream (patch_chunks ppm w cs)) \<le>
     length (chunk_stream cs) + (if w then 0 else 21)"
proof (induction cs arbitrary: w)
  case Nil
  then show ?case by simp
next
  case (Cons c cs)
  show ?case
    using Cons [of True] Cons [of False] by (cases w) auto
qed

lemma wf_chunk_length: "wf_chunk c \<Longrightarrow> length (c_bytes c) = 12 + unat (c_len c)"
  by (simp add: wf_chunk_def)

lemma scan_loop_stream:
  assumes "wf_stream ws"
    and "length out + length (chunk_stream (patch_chunks ppm w ws)) \<le> PNG_OUT_CAP"
  shows "scan_loop ppm (chunk_stream ws @ tail) out w =
     (if ws \<noteq> [] \<and> c_type (last ws) = tag_IEND
      then Inr (out @ chunk_stream (patch_chunks ppm w ws))
      else scan_loop ppm tail (out @ chunk_stream (patch_chunks ppm w ws))
             (w \<or> (\<exists>c\<in>set ws. c_type c = tag_IDAT)))"
  using assms
proof (induction ws arbitrary: out w)
  case Nil
  then show ?case by simp
next
  case (Cons c ws)
  from Cons.prems(1) have wfc: "wf_chunk c" and wfs: "wf_stream ws"
    and iend: "c_type c = tag_IEND \<Longrightarrow> ws = []" by auto
  note lenc = wf_chunk_length [OF wfc]
  show ?case
  proof (cases "c_type c = tag_pHYs")
    case True
    then show ?thesis
      using Cons.prems(2) Cons.IH [OF wfs, of out w]
      by (auto simp add: scan_loop_wf_chunk [OF wfc])
  next
    case notphys: False
    show ?thesis
    proof (cases "\<not> w \<and> c_type c = tag_IDAT")
      case True
      then have p: "patch_chunks ppm w (c # ws) = pHYs_chunk ppm # c # patch_chunks ppm True ws"
        using notphys by simp
      have cap: "length (out @ c_bytes (pHYs_chunk ppm) @ c_bytes c) +
          length (chunk_stream (patch_chunks ppm True ws)) \<le> PNG_OUT_CAP"
        using Cons.prems(2) unfolding p by simp
      show ?thesis
        using True notphys cap lenc Cons.IH [OF wfs, of "out @ c_bytes (pHYs_chunk ppm) @ c_bytes c" True]
        by (auto simp add: scan_loop_wf_chunk [OF wfc] p)
    next
      case False
      then have p: "patch_chunks ppm w (c # ws) = c # patch_chunks ppm w ws"
        using notphys by auto
      have cap: "length (out @ c_bytes c) +
          length (chunk_stream (patch_chunks ppm w ws)) \<le> PNG_OUT_CAP"
        using Cons.prems(2) unfolding p by simp
      have w': "(w \<or> c_type c = tag_IDAT) = w" using False by auto
      show ?thesis
        using False notphys cap lenc iend Cons.IH [OF wfs, of "out @ c_bytes c" w]
        by (auto simp add: scan_loop_wf_chunk [OF wfc] p w')
    qed
  qed
qed

section \<open>The filter and inject policy on chunk lists\<close>

lemma patch_chunks_True: "patch_chunks ppm True cs = filter (\<lambda>c. c_type c \<noteq> tag_pHYs) cs"
  by (induction cs) auto

lemma patch_chunks_False:
  "patch_chunks ppm False cs =
     (let keep = filter (\<lambda>c. c_type c \<noteq> tag_pHYs) cs;
          pre = takeWhile (\<lambda>c. c_type c \<noteq> tag_IDAT) keep;
          post = dropWhile (\<lambda>c. c_type c \<noteq> tag_IDAT) keep
      in if post = [] then pre else pre @ pHYs_chunk ppm # post)"
  by (induction cs) (auto simp add: Let_def patch_chunks_True)

lemma patch_chunks_idem:
  "patch_chunks ppm w (patch_chunks ppm w cs) = patch_chunks ppm w cs"
  by (induction cs arbitrary: w) auto

lemma rebuild_png_Inr:
  assumes "rebuild_png ppm input = Inr out"
  shows "\<exists>cs. take 8 input = PNG_SIG \<and> chunks_of (drop 8 input) = Some cs \<and>
              out = PNG_SIG @ chunk_stream (patch_chunks ppm False cs) \<and>
              wf_stream (patch_chunks ppm False cs) \<and> length out \<le> PNG_OUT_CAP"
proof -
  from assms have sig: "take 8 input = PNG_SIG"
    and loop: "scan_loop ppm (drop 8 input) PNG_SIG False = Inr out"
    by (auto simp add: rebuild_png_def PNG_SIG_BYTES_def split: if_splits)
  have "length PNG_SIG \<le> PNG_OUT_CAP" by (simp add: cap_value)
  from scan_loop_Inr [OF loop this] sig show ?thesis by blast
qed

lemma rebuild_png_stream:
  assumes "wf_stream ws" "8 + length (chunk_stream (patch_chunks ppm False ws)) \<le> PNG_OUT_CAP"
  shows "rebuild_png ppm (PNG_SIG @ chunk_stream ws @ tail) =
     (if ws \<noteq> [] \<and> c_type (last ws) = tag_IEND
      then Inr (PNG_SIG @ chunk_stream (patch_chunks ppm False ws))
      else scan_loop ppm tail (PNG_SIG @ chunk_stream (patch_chunks ppm False ws))
             (\<exists>c\<in>set ws. c_type c = tag_IDAT))"
  using scan_loop_stream [OF assms(1), of PNG_SIG ppm False tail] assms(2)
  by (simp add: rebuild_png_def PNG_SIG_BYTES_def)

lemma rebuild_png_idem:
  assumes "rebuild_png ppm input = Inr out"
  shows "rebuild_png ppm out = Inr out"
proof -
  from rebuild_png_Inr [OF assms] obtain cs where
    out: "out = PNG_SIG @ chunk_stream (patch_chunks ppm False cs)"
    and wf: "wf_stream (patch_chunks ppm False cs)" and cap: "length out \<le> PNG_OUT_CAP"
    by blast
  define ws where "ws = patch_chunks ppm False cs"
  have idem: "patch_chunks ppm False ws = ws"
    by (simp add: ws_def patch_chunks_idem)
  have "8 + length (chunk_stream (patch_chunks ppm False ws)) \<le> PNG_OUT_CAP"
    using cap unfolding idem by (simp add: out ws_def)
  from rebuild_png_stream [OF wf [folded ws_def] this, of "[]"]
  show ?thesis
    by (simp add: out idem scan_loop_short flip: ws_def)
qed

section \<open>Error codes, success and size of the rebuild\<close>

lemma scan_loop_Inl:
  "scan_loop ppm rest out w = Inl e \<Longrightarrow> e = 21 \<or> e = 22 \<or> e = 23"
proof (induction "length rest" arbitrary: rest out w rule: less_induct)
  case less
  show ?case
  proof (cases "length rest < 12")
    case True
    with less.prems show ?thesis by (simp add: scan_loop_short)
  next
    case False
    then have long: "12 \<le> length rest" by simp
    show ?thesis
    proof (cases "length rest - 8 < unat (png_read_u32_be rest + 4)")
      case True
      with less.prems long show ?thesis by (simp add: scan_loop_malformed)
    next
      case ok: False
      have shorter: "length (drop (unat (png_read_u32_be rest) + 12) rest) < length rest"
        using long by simp
      from less.prems show ?thesis
        unfolding scan_loop_step [OF long ok] Let_def
        by (auto split: if_splits dest: less.hyps [OF shorter])
    qed
  qed
qed

lemma rebuild_png_Inl:
  "rebuild_png ppm input = Inl e \<Longrightarrow> e = 3 \<or> e = 21 \<or> e = 22 \<or> e = 23"
  by (auto simp add: rebuild_png_def split: if_splits dest: scan_loop_Inl)

lemma rebuild_png_malformed:
  assumes "length input < 8 \<or> take 8 input \<noteq> PNG_SIG \<or> chunks_of (drop 8 input) = None"
  shows "\<exists>e. rebuild_png ppm input = Inl e \<and> e \<noteq> 0"
proof (cases "rebuild_png ppm input")
  case (Inl e)
  with rebuild_png_Inl [OF Inl] show ?thesis by auto
next
  case (Inr out)
  from rebuild_png_Inr [OF Inr] assms Inr show ?thesis
    by (auto simp add: rebuild_png_def PNG_SIG_BYTES_def split: if_splits)
qed

text \<open>When no declared length wraps and the input fits the input buffer, the loop ends normally.\<close>

lemma scan_loop_succeeds:
  assumes "chunks_of rest = Some cs"
    and "\<forall>c\<in>set cs. unat (c_len c) + 4 < 2 ^ 32"
    and "length out + length rest + (if w then 0 else 21) \<le> PNG_OUT_CAP"
  shows "\<exists>out'. scan_loop ppm rest out w = Inr out'"
  using assms
proof (induction "length rest" arbitrary: rest out w cs rule: less_induct)
  case less
  show ?case
  proof (cases "length rest < 12")
    case True
    then show ?thesis by (simp add: scan_loop_short)
  next
    case False
    then have long: "12 \<le> length rest" by simp
    define len where "len = png_read_u32_be rest"
    define type where "type = take 4 (drop 4 rest)"
    define nxt where "nxt = drop (unat len + 12) rest"
    define c where "c = \<lparr>c_len = len, c_type = type, c_bytes = take (12 + unat len) rest\<rparr>"
    have ok: "\<not> length rest - 8 < unat (png_read_u32_be rest + 4)"
      using less.prems(1) long by (auto simp add: chunks_of_malformed)
    have ch: "chunks_of rest =
        (if type = tag_IEND then Some [c] else map_option ((#) c) (chunks_of nxt))"
      using chunks_of_step [OF long ok] by (simp add: Let_def len_def type_def nxt_def c_def)
    then have "c \<in> set cs"
      using less.prems(1) by (cases "chunks_of nxt") (auto split: if_splits)
    with less.prems(2) have "unat len + 4 < 2 ^ 32" by (auto simp add: c_def)
    then have "unat len + unat (4 :: u32) < 2 ^ LENGTH(32)" by simp
    then have "unat (len + 4) = unat len + unat (4 :: u32)"
      by (simp only: unat_add_lem)
    with ok have fits: "unat len + 12 \<le> length rest" by (simp add: len_def)
    have shorter: "length nxt < length rest"
      using long by (simp add: nxt_def)
    have lnxt: "length nxt + (unat len + 12) = length rest"
      using fits by (simp add: nxt_def)
    note step = scan_loop_step [OF long ok, of ppm out w, unfolded Let_def,
        folded len_def type_def, folded nxt_def]
    show ?thesis
    proof (cases "type = tag_IEND")
      case True
      then show ?thesis
        using step less.prems(3) fits by (cases w) (auto simp add: )
    next
      case False
      with ch less.prems(1) obtain cs' where cs': "chunks_of nxt = Some cs'" "cs = c # cs'"
        by (cases "chunks_of nxt") (auto split: if_splits)
      then have lens: "\<forall>c\<in>set cs'. unat (c_len c) + 4 < 2 ^ 32"
        using less.prems(2) by simp
      show ?thesis
      proof (cases "type = tag_pHYs")
        case True
        have "length out + length nxt + (if w then 0 else 21) \<le> PNG_OUT_CAP"
          using less.prems(3) lnxt by (simp split: if_splits)
        from less.hyps [OF shorter cs'(1) lens this] True step show ?thesis by simp
      next
        case notphys: False
        define out1 where "out1 = (if \<not> w \<and> type = tag_IDAT then out @ c_bytes (pHYs_chunk ppm) else out)"
        have l1: "length out1 + length rest + (if w \<or> type = tag_IDAT then 0 else 21) \<le> PNG_OUT_CAP"
          using less.prems(3) by (auto simp add: out1_def split: if_splits)
        have "length (out1 @ take (12 + unat len) rest) + length nxt =
            length out1 + length rest"
          using lnxt fits by simp
        with l1 have "length (out1 @ take (12 + unat len) rest) + length nxt +
            (if w \<or> type = tag_IDAT then 0 else 21) \<le> PNG_OUT_CAP"
          by (simp only:)
        from less.hyps [OF shorter cs'(1) lens this]
        obtain out' where "scan_loop ppm nxt (out1 @ take (12 + unat len) rest) (w \<or> type = tag_IDAT) = Inr out'"
          by blast
        moreover have "\<not> (\<not> w \<and> type = tag_IDAT \<and> length out + 21 > PNG_OUT_CAP)"
          using less.prems(3) by auto
        moreover have "\<not> length out1 + 12 + unat len > PNG_OUT_CAP"
          using l1 fits by simp
        ultimately show ?thesis
          using step notphys False by (simp add: out1_def)
      qed
    qed
  qed
qed

lemma rebuild_png_succeeds:
  assumes "8 \<le> length input" "take 8 input = PNG_SIG" "length input \<le> MAX_PNG_SIZE"
    and "chunks_of (drop 8 input) = Some cs"
    and "\<forall>c\<in>set cs. unat (c_len c) + 4 < 2 ^ 32"
  shows "\<exists>out. rebuild_png ppm input = Inr out"
proof -
  have "length PNG_SIG + length (drop 8 input) + (if False then 0 else 21) \<le> PNG_OUT_CAP"
    using assms(1,3) by (simp add: PNG_OUT_CAP_def)
  from scan_loop_succeeds [OF assms(4,5) this, of ppm] show ?thesis
    using assms(1,2) by (simp add: rebuild_png_def PNG_SIG_BYTES_def)
qed

lemma chunks_of_length:
  "chunks_of rest = Some cs \<Longrightarrow> length (chunk_stream cs) \<le> length rest"
proof (induction "length rest" arbitrary: rest cs rule: less_induct)
  case less
  show ?case
  proof (cases "length rest < 12")
    case True
    with less.prems show ?thesis by (simp add: chunks_of_short)
  next
    case False
    then have long: "12 \<le> length rest" by simp
    define n where "n = unat (png_read_u32_be rest) + 12"
    have ok: "\<not> length rest - 8 < unat (png_read_u32_be rest + 4)"
      using less.prems long by (auto simp add: chunks_of_malformed)
    have shorter: "length (drop n rest) < length rest"
      using long by (simp add: n_def)
    have split: "length (take n rest) + length (drop n rest) = length rest"
      by simp
    from less.prems show ?thesis
      unfolding chunks_of_step [OF long ok] Let_def
      using split less.hyps [OF shorter]
      by (auto simp add: n_def add.commute simp del: length_take length_drop split: if_splits)
  qed
qed

lemma rebuild_png_size:
  assumes "rebuild_png ppm input = Inr out"
  shows "length out \<le> length input + 21"
proof -
  from rebuild_png_Inr [OF assms] obtain cs where
    cs: "chunks_of (drop 8 input) = Some cs"
    and out: "out = PNG_SIG @ chunk_stream (patch_chunks ppm False cs)" by blast
  from assms have "8 \<le> length input"
    by (auto simp add: rebuild_png_def PNG_SIG_BYTES_def split: if_splits)
  with chunks_of_length [OF cs] patch_chunks_stream_length [of ppm False cs]
  show ?thesis by (simp add: out)
qed

lemma scan_loop_never_22:
  assumes "length out + length rest + (if w then 0 else 21) \<le> PNG_OUT_CAP"
  shows "scan_loop ppm rest out w \<noteq> Inl 22"
  using assms
proof (induction "length rest" arbitrary: rest out w rule: less_induct)
  case less
  show ?case
  proof (cases "length rest < 12")
    case True
    then show ?thesis by (simp add: scan_loop_short)
  next
    case False
    then have long: "12 \<le> length rest" by simp
    show ?thesis
    proof (cases "length rest - 8 < unat (png_read_u32_be rest + 4)")
      case True
      with long show ?thesis by (simp add: scan_loop_malformed)
    next
      case ok: False
      define len where "len = png_read_u32_be rest"
      define type where "type = take 4 (drop 4 rest)"
      define nxt where "nxt = drop (unat len + 12) rest"
      have shorter: "length nxt < length rest"
        using long by (simp add: nxt_def)
      note step = scan_loop_step [OF long ok, of ppm out w, unfolded Let_def,
          folded len_def type_def, folded nxt_def]
      show ?thesis
      proof (cases "type = tag_pHYs")
        case True
        have "length out + length nxt + (if w then 0 else 21) \<le> PNG_OUT_CAP"
          using less.prems shorter by (simp split: if_splits)
        from less.hyps [OF shorter this] True step show ?thesis by simp
      next
        case notphys: False
        define out1 where "out1 = (if \<not> w \<and> type = tag_IDAT then out @ c_bytes (pHYs_chunk ppm) else out)"
        have no22: "\<not> (\<not> w \<and> type = tag_IDAT \<and> length out + 21 > PNG_OUT_CAP)"
          using less.prems by auto
        have l1: "length out1 + length rest + (if w \<or> type = tag_IDAT then 0 else 21) \<le> PNG_OUT_CAP"
          using less.prems by (auto simp add: out1_def split: if_splits)
        show ?thesis
        proof (cases "length out1 + 12 + unat len > PNG_OUT_CAP \<or> type = tag_IEND")
          case True
          then show ?thesis
            using step notphys no22 by (auto simp add: out1_def)
        next
          case False
          then have "12 + unat len \<le> PNG_OUT_CAP" by simp
          from unat_len_plus4 [OF this] ok have fits: "unat len + 12 \<le> length rest"
            by (simp add: len_def)
          have "length (out1 @ take (12 + unat len) rest) + length nxt =
              length out1 + length rest"
            using fits by (simp add: nxt_def)
          with l1 have "length (out1 @ take (12 + unat len) rest) + length nxt +
              (if w \<or> type = tag_IDAT then 0 else 21) \<le> PNG_OUT_CAP"
            by (simp only:)
          from less.hyps [OF shorter this] show ?thesis
            using step notphys no22 False by (simp add: out1_def)
        qed
      qed
    qed
  qed
qed

lemma rebuild_png_never_22:
  assumes "length input \<le> MAX_PNG_SIZE"
  shows "rebuild_png ppm input \<noteq> Inl 22"
proof (cases "length input < 8 \<or> take 8 input \<noteq> PNG_SIG")
  case True
  then show ?thesis by (auto simp add: rebuild_png_def PNG_SIG_BYTES_def)
next
  case False
  then have "length (take 8 input) + length (drop 8 input) + (if False then 0 else 21) \<le> PNG_OUT_CAP"
    using assms by (simp add: PNG_OUT_CAP_def)
  from scan_loop_never_22 [OF this, of ppm] False show ?thesis
    by (simp add: rebuild_png_def PNG_SIG_BYTES_def)
qed

section \<open>Big-endian encoding\<close>

lemma read_write_u32: "png_read_u32_be (png_write_u32_be v @ xs) = v"
proof (rule bit_eqI)
  fix n
  assume "possible_bit TYPE(u32) n"
  then have n: "n < 32" by simp
  then consider "n < 8" | m where "n = 8 + m" "m < 8" | m where "n = 16 + m" "m < 8"
    | m where "n = 24 + m" "m < 8"
  proof -
    assume h: "n < 8 \<Longrightarrow> thesis" "\<And>m. n = 8 + m \<Longrightarrow> m < 8 \<Longrightarrow> thesis"
      "\<And>m. n = 16 + m \<Longrightarrow> m < 8 \<Longrightarrow> thesis" "\<And>m. n = 24 + m \<Longrightarrow> m < 8 \<Longrightarrow> thesis"
    show thesis
      using n h(1) h(2) [of "n - 8"] h(3) [of "n - 16"] h(4) [of "n - 24"] by linarith
  qed
  then show "bit (png_read_u32_be (png_write_u32_be v @ xs)) n = bit v n"
    by cases (auto simp add: png_read_u32_be_def png_write_u32_be_def bit_simps)
qed

lemma unat_byte_of:
  fixes v :: u32
  shows "unat (ucast (drop_bit k v) :: u8) = unat v div 2 ^ k mod 256"
proof -
  have "unat (ucast (drop_bit k v) :: u8) = take_bit 8 (drop_bit k (unat v))"
    by (simp add: unsigned_ucast_eq unat_drop_bit_eq del: drop_bit_eq_div)
  then show ?thesis
    by (simp add: drop_bit_eq_div take_bit_eq_mod)
qed

lemma base256_digits:
  fixes n :: nat
  assumes "n < 2 ^ 32"
  shows "n = (n div 2 ^ 24 mod 256) * 2 ^ 24 + (n div 2 ^ 16 mod 256) * 2 ^ 16 +
             (n div 2 ^ 8 mod 256) * 2 ^ 8 + n div 2 ^ 0 mod 256"
proof -
  define a where "a = n div 256"
  define b where "b = a div 256"
  define c where "c = b div 256"
  define r0 where "r0 = n mod 256"
  define r1 where "r1 = a mod 256"
  define r2 where "r2 = b mod 256"
  have n: "n = a * 256 + r0" by (simp add: a_def r0_def)
  have a: "a = b * 256 + r1" by (simp add: b_def r1_def)
  have b: "b = c * 256 + r2" by (simp add: c_def r2_def)
  have b': "b = n div 2 ^ 16" by (simp add: b_def a_def div_mult2_eq)
  have c': "c = n div 2 ^ 24" by (simp add: c_def b' div_mult2_eq)
  have "c < 256" using assms by (simp add: c' less_mult_imp_div_less)
  then have c'': "n div 2 ^ 24 mod 256 = c" by (simp add: c')
  have "n = c * 16777216 + r2 * 65536 + r1 * 256 + r0"
    using n a b by linarith
  then show ?thesis
    using c'' by (simp add: r0_def r1_def r2_def a_def b')
qed

lemma write_u32_big_endian:
  assumes "png_write_u32_be v = [b0, b1, b2, b3]"
  shows "unat v = unat b0 * 2 ^ 24 + unat b1 * 2 ^ 16 + unat b2 * 2 ^ 8 + unat b3"
proof -
  have lt: "unat v < 2 ^ 32" using unsigned_less [of v] by simp
  from assms have b: "b0 = ucast (drop_bit 24 v)" "b1 = ucast (drop_bit 16 v)"
    "b2 = ucast (drop_bit 8 v)" "b3 = ucast (drop_bit 0 v)"
    by (simp_all add: png_write_u32_be_def)
  show ?thesis
    unfolding b unat_byte_of by (rule base256_digits [OF lt])
qed

section \<open>Evaluation on the concrete files\<close>

lemma funpow8: "(f ^^ 8) x = f (f (f (f (f (f (f (f x)))))))"
  by (simp add: numeral_eq_Suc)

lemma crc_table_round_numeral:
  "crc_table_round (numeral n) =
     (if numeral n AND (1 :: u32) \<noteq> 0 then 0xEDB88320 XOR drop_bit 1 (numeral n)
      else drop_bit 1 (numeral n))"
  "crc_table_round 0 = 0"
  "crc_table_round 1 = 0xEDB88320"
  by (simp_all add: crc_table_round_def)

lemma pHYs_chunk_11811:
  "c_bytes (pHYs_chunk 11811) =
     [0, 0, 0, 9, 0x70, 0x48, 0x59, 0x73, 0, 0, 0x2E, 0x23, 0, 0, 0x2E, 0x23, 1,
      0x78, 0xA5, 0x3F, 0x76]"
  by (simp add: pHYs_chunk_def pHYs_bytes_def Let_def png_write_u32_be_def
      png_crc32_def crc_update_def png_crc_table_def tag_pHYs_def crc_table_round_numeral funpow8)

text \<open>The reference definition gives the check value of CRC-32 for "123456789".\<close>

lemma crc32_ref_shift_numeral:
  "crc32_ref_shift (numeral n) =
     (if bit (numeral n :: u32) 0 then drop_bit 1 (numeral n) XOR 0xEDB88320
      else drop_bit 1 (numeral n))"
  "crc32_ref_shift 0 = 0"
  "crc32_ref_shift 1 = 0xEDB88320"
  by (simp_all add: crc32_ref_shift_def bit_0)

lemma crc32_reference_check_value:
  "crc32_reference [0x31, 0x32, 0x33, 0x34, 0x35, 0x36, 0x37, 0x38, 0x39] = 0xCBF43926"
  by (simp add: crc32_reference_def crc32_ref_byte_def funpow8 crc32_ref_shift_numeral bit_0)

lemmas eval_defs =
  rebuild_png_def PNG_SIG_BYTES_def PNG_SIG_def scan_loop.simps chunks_of.simps Let_def
  png_read_u32_be_def emit_eq pHYs_chunk_11811 cap_value tag_pHYs_def tag_IDAT_def tag_IEND_def

lemma sample_rebuild: "rebuild_png 11811 sample_png = Inr sample_out"
  by (simp add: sample_png_def sample_out_def eval_defs)

lemma sample_chunks_of: "chunks_of (drop 8 sample_png) = Some sample_chunks"
  by (simp add: sample_png_def sample_chunks_def eval_defs)

lemma sample_has_IDAT: "\<exists>c\<in>set sample_chunks. c_type c = tag_IDAT"
  by (simp add: sample_chunks_def tag_IDAT_def)

lemma wrapped_pHYs_rebuild: "rebuild_png ppm wrapped_pHYs_png = Inr PNG_SIG"
  by (simp add: wrapped_pHYs_png_def eval_defs)

lemma wrapped_IHDR_rebuild: "rebuild_png ppm wrapped_IHDR_png = Inl 23"
  by (simp add: wrapped_IHDR_png_def eval_defs)


lemma overrun_chunks_of: "chunks_of (drop 8 overrun_png) = None"
  by (simp add: overrun_png_def eval_defs)

lemma update_all_ok:
  assumes "fs pa = Some input" "length input \<le> MAX_PNG_SIZE"
  shows "update_png_dpi io_all_ok fs (Some pa) ppm =
     (case rebuild_png ppm input of Inl code \<Rightarrow> (code, fs) | Inr out \<Rightarrow> (0, fs(pa \<mapsto> out)))"
proof (cases "rebuild_png ppm input")
  case (Inl code)
  with assms show ?thesis by (simp add: update_png_dpi_def io_all_ok_def)
next
  case (Inr out)
  from rebuild_png_Inr [OF Inr] have "length out \<le> PNG_OUT_CAP" by blast
  with assms Inr show ?thesis
    by (simp add: update_png_dpi_def io_all_ok_def PNG_OUT_CAP_def)
qed

lemma rejected_input_leaves_file:
  assumes "fs pa = Some input"
    and "length input < 8 \<or> take 8 input \<noteq> PNG_SIG \<or> chunks_of (drop 8 input) = None"
  shows "fst (update_png_dpi io fs (Some pa) ppm) \<noteq> 0 \<and>
         snd (update_png_dpi io fs (Some pa) ppm) = fs"
proof -
  from rebuild_png_malformed [OF assms(2)] obtain e where
    "rebuild_png ppm input = Inl e" "e \<noteq> 0" by blast
  with assms(1) show ?thesis
    by (simp add: update_png_dpi_def)
qed

lemma pHYs_bytes_stored:
  "png_read_u32_be (drop 8 (pHYs_bytes ppm)) = ppm"
  "png_read_u32_be (drop 12 (pHYs_bytes ppm)) = ppm"
  by (simp_all add: pHYs_bytes_def Let_def tag_pHYs_def read_write_u32)

section \<open>The conversion in binary64 arithmetic\<close>

text \<open>The literal \<open>39.37007874\<close> as a \<open>double\<close>, in units of \<open>2^-47\<close>.\<close>

lemma png_factor_value: "png_factor = 5540845998219096"
  by (simp add: png_factor_def Let_def)

lemma bit_length_le: "n < 2 ^ k \<Longrightarrow> bit_length n \<le> k"
proof (induction k arbitrary: n)
  case 0
  then show ?case by (simp add: bit_length.simps)
next
  case (Suc k)
  show ?case
  proof (cases "n = 0")
    case True
    then show ?thesis by (simp add: bit_length.simps)
  next
    case False
    from Suc.prems have "n div 2 < 2 ^ k" by simp
    from Suc.IH [OF this] False show ?thesis
      by (simp add: bit_length.simps [of n])
  qed
qed

lemma bit_length_gt: "2 ^ k \<le> n \<Longrightarrow> k < bit_length n"
proof (induction k arbitrary: n)
  case 0
  then show ?case by (simp add: bit_length.simps [of n])
next
  case (Suc k)
  then have "2 ^ k \<le> n div 2" by simp
  moreover have "0 < (2::nat) ^ Suc k" by simp
  with Suc.prems have "n \<noteq> 0" by linarith
  ultimately show ?case
    using Suc.IH [of "n div 2"] by (simp add: bit_length.simps [of n])
qed

lemma bit_length_eq: "2 ^ k \<le> n \<Longrightarrow> n < 2 ^ Suc k \<Longrightarrow> bit_length n = Suc k"
  using bit_length_le [of n "Suc k"] bit_length_gt [of k n] by simp

text \<open>The rounding error is at most half a unit in the last place.\<close>

lemma binary64_round_error:
  assumes "n < 2 ^ (53 + S)"
  shows "2 * binary64_round n \<le> 2 * n + 2 ^ S" and "2 * n \<le> 2 * binary64_round n + 2 ^ S"
proof -
  define s where "s = bit_length n - 53"
  define q where "q = n div 2 ^ s"
  define r where "r = n mod 2 ^ s"
  have "s \<le> S" using bit_length_le [OF assms] by (simp add: s_def)
  then have pw: "(2::nat) ^ s \<le> 2 ^ S" by simp
  have n: "n = q * 2 ^ s + r"
    unfolding q_def r_def by (rule div_mult_mod_eq [symmetric])
  have r: "r < 2 ^ s" by (simp add: r_def)
  have f: "binary64_round n = (if 2 * r < 2 ^ s \<or> (2 * r = 2 ^ s \<and> even q) then q * 2 ^ s else (q + 1) * 2 ^ s)"
    by (simp add: binary64_round_def Let_def s_def q_def r_def)
  define p where "p = (2::nat) ^ s"
  define b where "b = (2::nat) ^ S"
  have cases: "(2 * r \<le> p \<and> binary64_round n = q * p) \<or> (p \<le> 2 * r \<and> binary64_round n = q * p + p)"
    unfolding f p_def by (auto simp add: algebra_simps)
  have n': "n = q * p + r" and r': "r < p" and pw': "p \<le> b"
    using n r pw by (simp_all add: p_def b_def)
  show "2 * binary64_round n \<le> 2 * n + 2 ^ S"
    using cases n' r' pw' unfolding b_def [symmetric] by auto
  show "2 * n \<le> 2 * binary64_round n + 2 ^ S"
    using cases n' r' pw' unfolding b_def [symmetric] by auto
qed

lemma binary64_round_at: 
  assumes "2 ^ (52 + s) \<le> n" "n < 2 ^ (53 + s)"
  shows "binary64_round n = (let q = n div 2 ^ s; r = n mod 2 ^ s
      in if 2 * r < 2 ^ s \<or> (2 * r = 2 ^ s \<and> even q) then q * 2 ^ s else (q + 1) * 2 ^ s)"
proof -
  have "bit_length n = Suc (52 + s)"
    using assms by (intro bit_length_eq) simp_all
  then show ?thesis by (simp add: binary64_round_def)
qed

lemma binary64_round_small: "n < 2 ^ 53 \<Longrightarrow> binary64_round n = n"
  using bit_length_le [of n 53] by (simp add: binary64_round_def)

lemma factor_identity: "png_factor * 100000000 + 45852672 = 3937007874 * 2 ^ 47"
  by (simp add: png_factor_value)

lemma div_eqI_nat:
  fixes y :: nat
  assumes "n * c \<le> y" "y < (n + 1) * c"
  shows "y div c = n"
  by (rule div_nat_eqI) (use assms in \<open>simp_all add: mult.commute\<close>)

lemma product_range:
  assumes "1 \<le> d" "d < 24999873"
  shows "2 ^ 52 \<le> d * png_factor" and "d * png_factor < 2 ^ 77"
  using assms by (simp_all add: png_factor_value)

lemma product_rounded:
  assumes "1 \<le> d" "d < 24999873"
  defines "x \<equiv> binary64_round (d * png_factor)"
  shows "2 * x \<le> 2 * (d * png_factor) + 2 ^ 24"
    and "2 * (d * png_factor) \<le> 2 * x + 2 ^ 24"
    and "2 ^ 47 < x" and "x < 4294967295 * 2 ^ 47" and "x + 2 ^ 46 < 2 ^ 77"
proof -
  have lt: "d * png_factor < 2 ^ (53 + 24)"
    using product_range(2) [OF assms(1,2)] by simp
  show a: "2 * x \<le> 2 * (d * png_factor) + 2 ^ 24"
    and b: "2 * (d * png_factor) \<le> 2 * x + 2 ^ 24"
    unfolding x_def by (rule binary64_round_error [OF lt])+
  show "2 ^ 47 < x" using b assms(1) by (simp add: png_factor_value)
  show "x < 4294967295 * 2 ^ 47" using a assms(2) by (simp add: png_factor_value)
  show "x + 2 ^ 46 < 2 ^ 77" using a assms(2) by (simp add: png_factor_value)
qed

lemma good_residue:
  assumes "1 \<le> d" "d < 24999873"
    and "22 \<le> (d * 3937007874 + 50000000) mod 100000000"
    and "(d * 3937007874 + 50000000) mod 100000000 \<le> 99999988"
  shows "binary64_round (binary64_round (d * png_factor) + 2 ^ 46) div 2 ^ 47 =
         (d * 3937007874 + 50000000) div 100000000"
proof -
  define x where "x = binary64_round (d * png_factor)"
  define y where "y = binary64_round (x + 2 ^ 46)"
  define n where "n = (d * 3937007874 + 50000000) div 100000000"
  define K where "K = (d * 3937007874 + 50000000) mod 100000000"
  have split: "d * 3937007874 + 50000000 = n * 100000000 + K"
    by (simp add: n_def K_def)
  note px = product_rounded [OF assms(1,2), folded x_def]
  have lt: "x + 2 ^ 46 < 2 ^ (53 + 24)" using px(5) by simp
  have y1: "2 * y \<le> 2 * (x + 2 ^ 46) + 2 ^ 24" and y2: "2 * (x + 2 ^ 46) \<le> 2 * y + 2 ^ 24"
    unfolding y_def by (rule binary64_round_error [OF lt])+
  have fid: "d * png_factor * 100000000 + d * 45852672 = d * 3937007874 * 140737488355328"
    using factor_identity by (simp add: algebra_simps flip: distrib_left)
  define P where "P = d * png_factor"
  have lo: "n * 140737488355328 \<le> y"
    using px(1,2) y1 y2 fid split assms(2,3) unfolding K_def [symmetric] P_def [symmetric]
    by simp
  have hi: "y < (n + 1) * 140737488355328"
    using px(1,2) y1 y2 fid split assms(2,4) unfolding K_def [symmetric] P_def [symmetric]
    by simp
  have "y div 140737488355328 = n"
    using lo hi by (rule div_eqI_nat)
  then show ?thesis by (simp add: y_def x_def n_def)
qed

lemma residue_to_d:
  fixes d :: nat
  assumes "(d * 3937007874 + 50000000) mod 100000000 = K"
  shows "d mod 50000000 = ((K div 2 + 25000000) * 49999873) mod 50000000"
proof -
  define e where "e = d * 1968503937 + 25000000"
  have "d * 3937007874 + 50000000 = 2 * e" by (simp add: e_def)
  then have "K = (2 * e) mod (2 * 50000000)" using assms by simp
  also have "\<dots> = 2 * (e mod 50000000)" by (simp only: mult_mod_right)
  finally have half: "K div 2 = e mod 50000000" by simp
  have "d mod 50000000 = (d * (1968503937 * 49999873 mod 50000000)) mod 50000000"
    by simp
  also have "\<dots> = (d * (1968503937 * 49999873)) mod 50000000"
    by (simp only: mod_mult_right_eq)
  also have "\<dots> = (d * (1968503937 * 49999873) + 50000000 * 49999873) mod 50000000"
    by (simp only: mod_mult_self2)
  also have "d * (1968503937 * 49999873) + 50000000 * 49999873 = (e + 25000000) * 49999873"
    by (simp add: e_def algebra_simps)
  also have "((e + 25000000) * 49999873) mod 50000000 =
      ((e mod 50000000 + 25000000) * 49999873) mod 50000000"
    by (metis mod_add_left_eq mod_mult_left_eq)
  finally show ?thesis by (simp add: half)
qed

lemma binary64_round_77:
  assumes "2 ^ 76 \<le> n" "n < 2 ^ 77"
  shows "binary64_round n =
     (if 2 * (n mod 2 ^ 24) < 2 ^ 24 \<or> (2 * (n mod 2 ^ 24) = 2 ^ 24 \<and> even (n div 2 ^ 24))
      then n div 2 ^ 24 * 2 ^ 24 else (n div 2 ^ 24 + 1) * 2 ^ 24)"
  using binary64_round_at [of 24 n] assms by (simp add: Let_def)

lemma near_half_inputs:
  "d \<in> {24999746, 24999619, 24999492, 24999365, 24999238, 24999111, 24998984, 24998857,
         24998730} \<Longrightarrow>
   binary64_round (binary64_round (d * png_factor) + 2 ^ 46) div 2 ^ 47 = (d * 3937007874 + 50000000) div 100000000"
  by (auto simp add: png_factor_value binary64_round_77)

lemma bad_residue:
  fixes d :: nat
  assumes "d < 24999873"
    and "\<not> (22 \<le> (d * 3937007874 + 50000000) mod 100000000 \<and>
            (d * 3937007874 + 50000000) mod 100000000 \<le> 99999988)"
  shows "d \<in> {24999746, 24999619, 24999492, 24999365, 24999238, 24999111, 24998984, 24998857,
         24998730}"
proof -
  define K where "K = (d * 3937007874 + 50000000) mod 100000000"
  define h where "h = K div 2"
  have eq: "d * 3937007874 + 50000000 = 2 * (d * 1968503937 + 25000000)" by simp
  have m: "(100000000::nat) = 2 * 50000000" by simp
  have "K = (2 * (d * 1968503937 + 25000000)) mod (2 * 50000000)"
    by (simp only: K_def eq m)
  also have "\<dots> = 2 * ((d * 1968503937 + 25000000) mod 50000000)"
    by (simp only: mult_mod_right)
  finally have K2: "K = 2 * h" and hlt: "h < 50000000"
    by (simp_all add: h_def)
  from assms(2) have "h < 11 \<or> 49999994 < h"
    unfolding K_def [symmetric] K2 by arith
  moreover have "h < 11 \<Longrightarrow>
      h = 0 \<or> h = 1 \<or> h = 2 \<or> h = 3 \<or> h = 4 \<or> h = 5 \<or> h = 6 \<or> h = 7 \<or> h = 8 \<or> h = 9 \<or> h = 10"
    by arith
  moreover have "49999994 < h \<Longrightarrow>
      h = 49999995 \<or> h = 49999996 \<or> h = 49999997 \<or> h = 49999998 \<or> h = 49999999"
    using hlt by arith
  ultimately consider "h \<in> {0, 1, 2, 3, 4, 5, 6, 7, 8, 9, 10}"
    | "h \<in> {49999995, 49999996, 49999997, 49999998, 49999999}"
    by auto
  note cases = this
  have "d mod 50000000 = ((h + 25000000) * 49999873) mod 50000000"
    using residue_to_d [of d K] by (simp add: K_def h_def)
  moreover have "d mod 50000000 = d" using assms(1) by simp
  ultimately have d: "d = ((h + 25000000) * 49999873) mod 50000000" by simp
  from cases show ?thesis
  proof cases
    case 1
    then show ?thesis using d assms(1) by auto
  next
    case 2
    then show ?thesis using d assms(1) by auto
  qed
qed

lemma conversion_core:
  assumes "1 \<le> d" "d < 24999873"
  shows "binary64_round (binary64_round (d * png_factor) + 2 ^ 46) div 2 ^ 47 =
         (d * 3937007874 + 50000000) div 100000000"
proof (cases "22 \<le> (d * 3937007874 + 50000000) mod 100000000 \<and>
            (d * 3937007874 + 50000000) mod 100000000 \<le> 99999988")
  case True
  then show ?thesis using good_residue [OF assms] by simp
next
  case False
  from bad_residue [OF assms(2) False] show ?thesis by (rule near_half_inputs)
qed

lemma round_as_div:
  "round (real d * 39.37007874) = int ((d * 3937007874 + 50000000) div 100000000)"
proof -
  have "real d * 39.37007874 + 1 / 2 = real (d * 3937007874 + 50000000) / real 100000000"
    by simp
  then have "round (real d * 39.37007874) = \<lfloor>real (d * 3937007874 + 50000000) / real 100000000\<rfloor>"
    by (simp only: round_def)
  then show ?thesis by (simp only: floor_divide_of_nat_eq)
qed

lemma ppm_of_positive:
  assumes "1 \<le> d" "d < 24999873"
  shows "png_dpi_to_ppm (int d) = of_nat ((d * 3937007874 + 50000000) div 100000000)"
proof -
  note px = product_rounded [OF assms]
  have "png_dpi_to_ppm (int d) = png_round_u32 (binary64_round (d * png_factor))"
    using assms(1) by (simp add: png_dpi_to_ppm_def)
  also have "\<dots> = of_nat (binary64_round (binary64_round (d * png_factor) + 2 ^ 46) div 2 ^ 47)"
    using px(3,4) by (simp add: png_round_u32_def)
  finally show ?thesis by (simp only: conversion_core [OF assms])
qed

lemma ppm_at_24999873: "png_dpi_to_ppm 24999873 = 984246968"
proof -
  have "png_dpi_to_ppm 24999873 = png_round_u32 (binary64_round (24999873 * png_factor))"
    by (simp add: png_dpi_to_ppm_def)
  also have "\<dots> = 984246968"
    by (simp add: png_round_u32_def png_factor_value binary64_round_77)
  finally show ?thesis .
qed

lemma ppm_scenarios:
  "png_dpi_to_ppm 300 = 11811" "png_dpi_to_ppm 600 = 23622" "png_dpi_to_ppm 1200 = 47244"
  "D \<le> 0 \<Longrightarrow> png_dpi_to_ppm D = 39"
proof -
  show "png_dpi_to_ppm 300 = 11811" using ppm_of_positive [of 300] by simp
  show "png_dpi_to_ppm 600 = 23622" using ppm_of_positive [of 600] by simp
  show "png_dpi_to_ppm 1200 = 47244" using ppm_of_positive [of 1200] by simp
  have "png_dpi_to_ppm 1 = 39" using ppm_of_positive [of 1] by simp
  then show "D \<le> 0 \<Longrightarrow> png_dpi_to_ppm D = 39"
    by (simp add: png_dpi_to_ppm_def)
qed

lemma rounding_window:
  fixes d S :: nat
  assumes N: "d * png_factor < 2 ^ (53 + S)"
    and Y: "binary64_round (d * png_factor) + 2 ^ 46 < 2 ^ (53 + S)"
    and lo: "d * 45852672 + 100000000 * 2 ^ S \<le>
             (d * 3937007874 + 50000000) mod 100000000 * 2 ^ 47"
    and hi: "100000000 * 2 ^ S + (d * 3937007874 + 50000000) mod 100000000 * 2 ^ 47 <
             100000000 * 2 ^ 47 + d * 45852672"
  shows "binary64_round (binary64_round (d * png_factor) + 2 ^ 46) div 2 ^ 47 =
         (d * 3937007874 + 50000000) div 100000000"
proof -
  define P where "P = d * png_factor"
  define x where "x = binary64_round P"
  define y where "y = binary64_round (x + 2 ^ 46)"
  define n where "n = (d * 3937007874 + 50000000) div 100000000"
  define K where "K = (d * 3937007874 + 50000000) mod 100000000"
  define E where "E = (2::nat) ^ S"
  have split: "d * 3937007874 + 50000000 = n * 100000000 + K"
    by (simp add: n_def K_def)
  have x1: "2 * x \<le> 2 * P + E" and x2: "2 * P \<le> 2 * x + E"
    unfolding x_def P_def E_def by (rule binary64_round_error [OF N])+
  have y1: "2 * y \<le> 2 * (x + 2 ^ 46) + E" and y2: "2 * (x + 2 ^ 46) \<le> 2 * y + E"
    unfolding y_def x_def P_def E_def by (rule binary64_round_error [OF Y])+
  have fid: "P * 100000000 + d * 45852672 = d * 3937007874 * 140737488355328"
    unfolding P_def using factor_identity by (simp add: algebra_simps flip: distrib_left)
  have lo': "d * 45852672 + 100000000 * E \<le> K * 140737488355328"
    using lo by (simp add: K_def E_def)
  have hi': "100000000 * E + K * 140737488355328 < 100000000 * 140737488355328 + d * 45852672"
    using hi by (simp add: K_def E_def)
  have a: "n * 140737488355328 \<le> y"
    using x2 y2 fid split lo' by simp
  have b: "y < (n + 1) * 140737488355328"
    using x1 y1 fid split hi' by simp
  have "y div 140737488355328 = n"
    using a b by (rule div_eqI_nat)
  then show ?thesis by (simp add: y_def x_def n_def P_def)
qed

lemma residue_even:
  fixes d :: nat
  obtains h where "(d * 3937007874 + 50000000) mod 100000000 = 2 * h" and "h < 50000000"
proof -
  define K where "K = (d * 3937007874 + 50000000) mod 100000000"
  have eq: "d * 3937007874 + 50000000 = 2 * (d * 1968503937 + 25000000)" by simp
  have m: "(100000000::nat) = 2 * 50000000" by simp
  have "K = (2 * (d * 1968503937 + 25000000)) mod (2 * 50000000)"
    by (simp only: K_def eq m)
  also have "\<dots> = 2 * ((d * 1968503937 + 25000000) mod 50000000)"
    by (simp only: mult_mod_right)
  finally have "K = 2 * (K div 2)" and "K div 2 < 50000000"
    by simp_all
  then show thesis using that [of "K div 2"] by (simp add: K_def)
qed

lemma residue_low:
  fixes d :: nat
  assumes "(d * 3937007874 + 50000000) mod 100000000 = 2 * h" and "127 * h \<le> 25000000"
  obtains q where "d + 127 * h = 50000000 * q + 25000000"
proof -
  define r where "r = 25000000 - 127 * h"
  define q where "q = d div 50000000"
  have r: "r + 127 * h = 25000000" using assms(2) by (simp add: r_def)
  have e: "(h + 25000000) * 49999873 = (h + 24999936) * 50000000 + r"
    using r by (simp add: algebra_simps)
  have "d mod 50000000 = ((h + 25000000) * 49999873) mod 50000000"
    using residue_to_d [OF assms(1)] by simp
  also have "\<dots> = r mod 50000000"
    by (simp only: e mod_mult_self3)
  also have "\<dots> = r" using r by simp
  finally have dm: "d mod 50000000 = r" .
  have "d = 50000000 * q + d mod 50000000"
    unfolding q_def by (simp only: mult_div_mod_eq)
  then have "d = 50000000 * q + r" by (simp only: dm)
  with r have "d + 127 * h = 50000000 * q + 25000000" by simp
  then show thesis by (rule that)
qed

lemma residue_high:
  fixes d :: nat
  assumes "(d * 3937007874 + 50000000) mod 100000000 = 2 * h"
    and "h + j = 50000000" and "127 * j < 25000000"
  obtains q where "d = 50000000 * q + 25000000 + 127 * j"
proof -
  define q where "q = d div 50000000"
  have e: "(h + 25000000) * 49999873 = (h + 24999809) * 50000000 + (25000000 + 127 * j)"
    using assms(2) by (simp add: algebra_simps)
  have "d mod 50000000 = ((h + 25000000) * 49999873) mod 50000000"
    using residue_to_d [OF assms(1)] by simp
  also have "\<dots> = (25000000 + 127 * j) mod 50000000"
    by (simp only: e mod_mult_self3)
  also have "\<dots> = 25000000 + 127 * j" using assms(3) by simp
  finally have dm: "d mod 50000000 = 25000000 + 127 * j" .
  have "d = 50000000 * q + d mod 50000000"
    unfolding q_def by (simp only: mult_div_mod_eq)
  then have "d = 50000000 * q + (25000000 + 127 * j)" by (simp only: dm)
  then have "d = 50000000 * q + 25000000 + 127 * j" by simp
  then show thesis by (rule that)
qed

lemma binary64_round_78:
  assumes "2 ^ 77 \<le> n" "n < 2 ^ 78"
  shows "binary64_round n =
     (if 2 * (n mod 2 ^ 25) < 2 ^ 25 \<or> (2 * (n mod 2 ^ 25) = 2 ^ 25 \<and> even (n div 2 ^ 25))
      then n div 2 ^ 25 * 2 ^ 25 else (n div 2 ^ 25 + 1) * 2 ^ 25)"
  using binary64_round_at [of 25 n] assms by (simp add: Let_def)

lemma binary64_round_79:
  assumes "2 ^ 78 \<le> n" "n < 2 ^ 79"
  shows "binary64_round n =
     (if 2 * (n mod 2 ^ 26) < 2 ^ 26 \<or> (2 * (n mod 2 ^ 26) = 2 ^ 26 \<and> even (n div 2 ^ 26))
      then n div 2 ^ 26 * 2 ^ 26 else (n div 2 ^ 26 + 1) * 2 ^ 26)"
  using binary64_round_at [of 26 n] assms by (simp add: Let_def)

lemma near_25_high:
  "binary64_round (binary64_round (25000127 * png_factor) + 2 ^ 46) div 2 ^ 47 =
   (25000127 * 3937007874 + 50000000) div 100000000"
  by (simp add: png_factor_value binary64_round_77)

lemma near_75_low:
  "\<forall>i\<in>{..<41}. binary64_round (binary64_round ((74999873 - 127 * i) * png_factor) + 2 ^ 46) div 2 ^ 47 =
     ((74999873 - 127 * i) * 3937007874 + 50000000) div 100000000"
  by (simp add: lessThan_nat_numeral png_factor_value binary64_round_79)

lemma near_75_high:
  "\<forall>i\<in>{..<15}. binary64_round (binary64_round ((75000127 + 127 * i) * png_factor) + 2 ^ 46) div 2 ^ 47 =
     ((75000127 + 127 * i) * 3937007874 + 50000000) div 100000000"
  by (simp add: lessThan_nat_numeral png_factor_value binary64_round_79)

lemma r77_low:
  fixes d h q :: nat
  assumes "24999873 < d" "d \<le> 27000000" "d \<noteq> 25000000" "h \<le> 10"
    and "d + 127 * h = 50000000 * q + 25000000"
  shows False
proof -
  consider "q = 0" "h = 0" | "q = 0" "1 \<le> h" | "1 \<le> q"
    by arith
  then show False
  proof cases
    case 1
    with assms show False by simp
  next
    case 2
    with assms show False by simp
  next
    case 3
    with assms show False by simp
  qed
qed

lemma r77_high:
  fixes d q :: nat
  assumes "24999873 < d" "d \<le> 27000000"
    and "d = 50000000 * q + 25000000 + 127 * 1"
  shows "d = 25000127"
proof -
  consider "q = 0" | "1 \<le> q" by arith
  then show ?thesis
  proof cases
    case 1
    with assms show ?thesis by simp
  next
    case 2
    with assms show ?thesis by simp
  qed
qed

lemma r78_low:
  fixes d h q :: nat
  assumes "27000000 < d" "d \<le> 54000000" "h \<le> 20"
    and "d + 127 * h = 50000000 * q + 25000000"
  shows False
proof -
  consider "q = 0" | "1 \<le> q" by arith
  then show False
  proof cases
    case 1
    with assms show False by simp
  next
    case 2
    with assms show False by simp
  qed
qed

lemma r78_high:
  fixes d j q :: nat
  assumes "27000000 < d" "d \<le> 54000000" "j \<le> 7"
    and "d = 50000000 * q + 25000000 + 127 * j"
  shows False
proof -
  consider "q = 0" | "1 \<le> q" by arith
  then show False
  proof cases
    case 1
    with assms show False by simp
  next
    case 2
    with assms show False by simp
  qed
qed

lemma r79_low:
  fixes d h q :: nat
  assumes "54000000 < d" "d \<le> 109092169" "d \<noteq> 75000000" "h \<le> 41"
    and "d + 127 * h = 50000000 * q + 25000000"
  shows "h - 1 \<in> {..<41}" and "d = 74999873 - 127 * (h - 1)"
proof -
  consider "q = 0" | "q = 1" | "2 \<le> q" by arith
  then have "q = 1"
  proof cases
    case 1
    with assms show ?thesis by simp
  next
    case 2
    then show ?thesis .
  next
    case 3
    with assms show ?thesis by simp
  qed
  with assms have d: "d + 127 * h = 75000000" by simp
  with assms(3) have "h \<noteq> 0" by auto
  then obtain i where h: "h = Suc i" by (cases h) simp_all
  with assms(4) show "h - 1 \<in> {..<41}" by simp
  from d h show "d = 74999873 - 127 * (h - 1)" by simp
qed

lemma r79_high:
  fixes d j q :: nat
  assumes "54000000 < d" "d \<le> 109092169" "1 \<le> j" "j \<le> 15"
    and "d = 50000000 * q + 25000000 + 127 * j"
  shows "j - 1 \<in> {..<15}" and "d = 75000127 + 127 * (j - 1)"
proof -
  consider "q = 0" | "q = 1" | "2 \<le> q" by arith
  then have "q = 1"
  proof cases
    case 1
    with assms show ?thesis by simp
  next
    case 2
    then show ?thesis .
  next
    case 3
    with assms show ?thesis by simp
  qed
  with assms have d: "d = 75000000 + 127 * j" by simp
  from assms(3) obtain i where j: "j = Suc i" by (cases j) simp_all
  with assms(4) show "j - 1 \<in> {..<15}" by simp
  from d j show "d = 75000127 + 127 * (j - 1)" by simp
qed

lemma clamp_arith:
  fixes n f :: nat
  assumes "4294967322 * 140737488355328 \<le> n" "2 * n \<le> 2 * f + n div 4503599627370496"
  shows "4294967295 * 140737488355328 \<le> f"
proof -
  define e where "e = n div 4503599627370496"
  have "e * 4503599627370496 \<le> n" by (simp add: e_def)
  with assms show ?thesis unfolding e_def [symmetric] by simp
qed

lemma range_77:
  assumes "24999873 < d" "d \<le> 27000000" "d \<noteq> 25000000"
  shows "binary64_round (binary64_round (d * png_factor) + 2 ^ 46) div 2 ^ 47 =
         (d * 3937007874 + 50000000) div 100000000"
proof -
  obtain h where K: "(d * 3937007874 + 50000000) mod 100000000 = 2 * h" and hlt: "h < 50000000"
    by (rule residue_even)
  have N: "d * png_factor < 2 ^ (53 + 24)"
    using assms by (simp add: png_factor_value)
  have "2 * binary64_round (d * png_factor) \<le> 2 * (d * png_factor) + 2 ^ 24"
    by (rule binary64_round_error(1) [OF N])
  then have Y: "binary64_round (d * png_factor) + 2 ^ 46 < 2 ^ (53 + 24)"
    using assms by (simp add: png_factor_value)
  have "h \<le> 10 \<or> (11 \<le> h \<and> h \<le> 49999998) \<or>
      (h + (50000000 - h) = 50000000 \<and> 1 \<le> 50000000 - h \<and> 50000000 - h \<le> 1)"
    using hlt by arith
  then consider (good) "11 \<le> h" "h \<le> 49999998" | (low) "h \<le> 10"
    | (high) j where "h + j = 50000000" "1 \<le> j" "j \<le> 1"
    by blast
  then show ?thesis
  proof cases
    case good
    show ?thesis
    proof (rule rounding_window [OF N Y])
      show "d * 45852672 + 100000000 * 2 ^ 24 \<le>
          (d * 3937007874 + 50000000) mod 100000000 * 2 ^ 47"
        unfolding K using good assms by simp
      show "100000000 * 2 ^ 24 + (d * 3937007874 + 50000000) mod 100000000 * 2 ^ 47 <
          100000000 * 2 ^ 47 + d * 45852672"
        unfolding K using good assms by simp
    qed
  next
    case low
    then obtain q where q: "d + 127 * h = 50000000 * q + 25000000"
      using residue_low [OF K] by auto
    from r77_low [OF assms low q] show ?thesis ..
  next
    case high
    then obtain q where q: "d = 50000000 * q + 25000000 + 127 * j"
      using residue_high [OF K, of j] by auto
    from high have "j = 1" by simp
    with q have "d = 50000000 * q + 25000000 + 127 * 1" by simp
    from r77_high [OF assms(1,2) this] show ?thesis by (simp only: near_25_high)
  qed
qed

lemma range_78:
  assumes "27000000 < d" "d \<le> 54000000"
  shows "binary64_round (binary64_round (d * png_factor) + 2 ^ 46) div 2 ^ 47 =
         (d * 3937007874 + 50000000) div 100000000"
proof -
  obtain h where K: "(d * 3937007874 + 50000000) mod 100000000 = 2 * h" and hlt: "h < 50000000"
    by (rule residue_even)
  have N: "d * png_factor < 2 ^ (53 + 25)"
    using assms by (simp add: png_factor_value)
  have "2 * binary64_round (d * png_factor) \<le> 2 * (d * png_factor) + 2 ^ 25"
    by (rule binary64_round_error(1) [OF N])
  then have Y: "binary64_round (d * png_factor) + 2 ^ 46 < 2 ^ (53 + 25)"
    using assms by (simp add: png_factor_value)
  have "h \<le> 20 \<or> (21 \<le> h \<and> h \<le> 49999992) \<or>
      (h + (50000000 - h) = 50000000 \<and> 1 \<le> 50000000 - h \<and> 50000000 - h \<le> 7)"
    using hlt by arith
  then consider (good) "21 \<le> h" "h \<le> 49999992" | (low) "h \<le> 20"
    | (high) j where "h + j = 50000000" "1 \<le> j" "j \<le> 7"
    by blast
  then show ?thesis
  proof cases
    case good
    show ?thesis
    proof (rule rounding_window [OF N Y])
      show "d * 45852672 + 100000000 * 2 ^ 25 \<le>
          (d * 3937007874 + 50000000) mod 100000000 * 2 ^ 47"
        unfolding K using good assms by simp
      show "100000000 * 2 ^ 25 + (d * 3937007874 + 50000000) mod 100000000 * 2 ^ 47 <
          100000000 * 2 ^ 47 + d * 45852672"
        unfolding K using good assms by simp
    qed
  next
    case low
    then obtain q where q: "d + 127 * h = 50000000 * q + 25000000"
      using residue_low [OF K] by auto
    from r78_low [OF assms low q] show ?thesis ..
  next
    case high
    then obtain q where q: "d = 50000000 * q + 25000000 + 127 * j"
      using residue_high [OF K, of j] by auto
    from r78_high [OF assms high(3) q] show ?thesis ..
  qed
qed

lemma range_79:
  assumes "54000000 < d" "d \<le> 109092169" "d \<noteq> 75000000"
  shows "binary64_round (binary64_round (d * png_factor) + 2 ^ 46) div 2 ^ 47 =
         (d * 3937007874 + 50000000) div 100000000"
proof -
  obtain h where K: "(d * 3937007874 + 50000000) mod 100000000 = 2 * h" and hlt: "h < 50000000"
    by (rule residue_even)
  have N: "d * png_factor < 2 ^ (53 + 26)"
    using assms by (simp add: png_factor_value)
  have "2 * binary64_round (d * png_factor) \<le> 2 * (d * png_factor) + 2 ^ 26"
    by (rule binary64_round_error(1) [OF N])
  then have Y: "binary64_round (d * png_factor) + 2 ^ 46 < 2 ^ (53 + 26)"
    using assms by (simp add: png_factor_value)
  have "h \<le> 41 \<or> (42 \<le> h \<and> h \<le> 49999984) \<or>
      (h + (50000000 - h) = 50000000 \<and> 1 \<le> 50000000 - h \<and> 50000000 - h \<le> 15)"
    using hlt by arith
  then consider (good) "42 \<le> h" "h \<le> 49999984" | (low) "h \<le> 41"
    | (high) j where "h + j = 50000000" "1 \<le> j" "j \<le> 15"
    by blast
  then show ?thesis
  proof cases
    case good
    show ?thesis
    proof (rule rounding_window [OF N Y])
      show "d * 45852672 + 100000000 * 2 ^ 26 \<le>
          (d * 3937007874 + 50000000) mod 100000000 * 2 ^ 47"
        unfolding K using good assms by simp
      show "100000000 * 2 ^ 26 + (d * 3937007874 + 50000000) mod 100000000 * 2 ^ 47 <
          100000000 * 2 ^ 47 + d * 45852672"
        unfolding K using good assms by simp
    qed
  next
    case low
    then obtain q where q: "d + 127 * h = 50000000 * q + 25000000"
      using residue_low [OF K] by auto
    from r79_low [OF assms low q] near_75_low show ?thesis by blast
  next
    case high
    then obtain q where q: "d = 50000000 * q + 25000000 + 127 * j"
      using residue_high [OF K, of j] by auto
    from r79_high [OF assms(1,2) high(2,3) q] near_75_high show ?thesis by blast
  qed
qed

lemma bit_length_bounds:
  "n < 2 ^ bit_length n" "0 < n \<Longrightarrow> 2 ^ (bit_length n - 1) \<le> n"
proof -
  show "n < 2 ^ bit_length n"
    using bit_length_gt [of "bit_length n" n] by (cases "n < 2 ^ bit_length n") simp_all
  assume "0 < n"
  then have "0 < bit_length n" by (simp add: bit_length.simps [of n])
  then show "2 ^ (bit_length n - 1) \<le> n"
    using bit_length_le [of n "bit_length n - 1"] by (cases "n < 2 ^ (bit_length n - 1)") simp_all
qed

lemma binary64_round_lower: "2 * n \<le> 2 * binary64_round n + n div 2 ^ 52"
proof (cases "bit_length n \<le> 53")
  case True
  then show ?thesis by (simp add: binary64_round_def)
next
  case False
  define s where "s = bit_length n - 53"
  from False have bl: "bit_length n = 53 + s"
    by (simp add: s_def)
  from False have "0 < n"
    by (cases "n = 0") (simp_all add: bit_length.simps [of 0])
  have "n < 2 ^ (53 + s)"
    using bit_length_bounds(1) [of n] by (simp add: bl)
  then have e: "2 * n \<le> 2 * binary64_round n + 2 ^ s"
    by (rule binary64_round_error(2))
  have "2 ^ (52 + s) \<le> n"
    using bit_length_bounds(2) [OF \<open>0 < n\<close>] by (simp add: bl)
  then have "2 ^ s * 2 ^ 52 \<le> n"
    by (simp add: power_add mult.commute)
  then have "2 ^ s \<le> n div 2 ^ 52"
    by (simp add: less_eq_div_iff_mult_less_eq)
  with e show ?thesis by linarith
qed

lemma product_clamped:
  assumes "109092170 \<le> d"
  shows "4294967295 * 2 ^ 47 \<le> binary64_round (d * png_factor)"
proof -
  define n where "n = d * png_factor"
  have "4294967322 * 140737488355328 \<le> n"
    using assms by (simp add: n_def png_factor_value)
  moreover have "2 * n \<le> 2 * binary64_round n + n div 4503599627370496"
    using binary64_round_lower [of n] by simp
  ultimately have "4294967295 * 140737488355328 \<le> binary64_round n"
    by (rule clamp_arith)
  then show ?thesis by (simp add: n_def)
qed

lemma product_in_range:
  assumes "1 \<le> d" "d \<le> 109092169"
  shows "2 ^ 47 < binary64_round (d * png_factor)" and "binary64_round (d * png_factor) < 4294967295 * 2 ^ 47"
proof -
  have N: "d * png_factor < 2 ^ (53 + 26)"
    using assms by (simp add: png_factor_value)
  from binary64_round_error [OF N]
  have a: "2 * binary64_round (d * png_factor) \<le> 2 * (d * png_factor) + 2 ^ 26"
    and b: "2 * (d * png_factor) \<le> 2 * binary64_round (d * png_factor) + 2 ^ 26" .
  show "2 ^ 47 < binary64_round (d * png_factor)" using b assms(1) by (simp add: png_factor_value)
  show "binary64_round (d * png_factor) < 4294967295 * 2 ^ 47" using a assms(2) by (simp add: png_factor_value)
qed

lemma ppm_in_range:
  assumes "1 \<le> d" "d \<le> 109092169" "d \<notin> {24999873, 25000000, 75000000}"
  shows "png_dpi_to_ppm (int d) = of_nat ((d * 3937007874 + 50000000) div 100000000)"
proof -
  note px = product_in_range [OF assms(1,2)]
  have core: "binary64_round (binary64_round (d * png_factor) + 2 ^ 46) div 2 ^ 47 =
         (d * 3937007874 + 50000000) div 100000000"
  proof -
    consider "d < 24999873" | "24999873 < d" "d \<le> 27000000" | "27000000 < d" "d \<le> 54000000"
      | "54000000 < d"
      using assms(3) by fastforce
    then show ?thesis
    proof cases
      case 1
      with assms(1) show ?thesis by (intro conversion_core)
    next
      case 2
      with assms(3) show ?thesis by (intro range_77) simp_all
    next
      case 3
      then show ?thesis by (intro range_78)
    next
      case 4
      with assms(2,3) show ?thesis by (intro range_79) simp_all
    qed
  qed
  have "png_dpi_to_ppm (int d) = png_round_u32 (binary64_round (d * png_factor))"
    using assms(1) by (simp add: png_dpi_to_ppm_def)
  also have "\<dots> = of_nat (binary64_round (binary64_round (d * png_factor) + 2 ^ 46) div 2 ^ 47)"
    using px by (simp add: png_round_u32_def)
  finally show ?thesis by (simp only: core)
qed

lemma ppm_clamped:
  assumes "109092170 \<le> d"
  shows "png_dpi_to_ppm (int d) = 4294967295"
proof -
  have "png_dpi_to_ppm (int d) = png_round_u32 (binary64_round (d * png_factor))"
    using assms by (simp add: png_dpi_to_ppm_def)
  also have "\<dots> = 4294967295"
    using product_clamped [OF assms] by (simp add: png_round_u32_def)
  finally show ?thesis .
qed

lemma ppm_at_ties:
  "png_dpi_to_ppm 25000000 = 984251968" "png_dpi_to_ppm 75000000 = 2952755905"
proof -
  have "png_dpi_to_ppm 25000000 = png_round_u32 (binary64_round (25000000 * png_factor))"
    by (simp add: png_dpi_to_ppm_def)
  also have "\<dots> = 984251968"
    by (simp add: png_round_u32_def png_factor_value binary64_round_77)
  finally show "png_dpi_to_ppm 25000000 = 984251968" .
  have "png_dpi_to_ppm 75000000 = png_round_u32 (binary64_round (75000000 * png_factor))"
    by (simp add: png_dpi_to_ppm_def)
  also have "\<dots> = 2952755905"
    by (simp add: png_round_u32_def png_factor_value binary64_round_79)
  finally show "png_dpi_to_ppm 75000000 = 2952755905" .
qed

lemma ppm_everywhere:
  assumes "D \<noteq> 24999873"
  shows "uint (png_dpi_to_ppm D) =
     max 1 (min 4294967295
       (round (real_of_int (if D \<le> 0 then 1 else D) * 39.37007874) -
        (if D = 25000000 \<or> D = 75000000 then 1 else 0)))"
proof -
  define d where "d = nat (if D \<le> 0 then 1 else D)"
  have d: "1 \<le> d" "d \<noteq> 24999873" and D: "int d = (if D \<le> 0 then 1 else D)"
    using assms by (auto simp add: d_def)
  define n where "n = (d * 3937007874 + 50000000) div 100000000"
  have same: "png_dpi_to_ppm D = png_dpi_to_ppm (int d)"
    unfolding D by (simp add: png_dpi_to_ppm_def)
  have rnd: "round (real_of_int (int d) * 39.37007874) = int n"
    using round_as_div [of d] by (simp add: n_def)
  have tie: "(D = 25000000 \<or> D = 75000000) = (d = 25000000 \<or> d = 75000000)"
    by (auto simp add: d_def)
  consider (tie25) "d = 25000000" | (tie75) "d = 75000000"
    | (mid) "d \<le> 109092169" "d \<notin> {24999873, 25000000, 75000000}" | (top) "109092170 \<le> d"
    using d(2) by fastforce
  then show ?thesis
  proof cases
    case tie25
    then have "n = 984251969" by (simp add: n_def)
    with tie25 show ?thesis
      unfolding same D [symmetric] rnd tie by (simp add: ppm_at_ties)
  next
    case tie75
    then have "n = 2952755906" by (simp add: n_def)
    with tie75 show ?thesis
      unfolding same D [symmetric] rnd tie by (simp add: ppm_at_ties)
  next
    case mid
    have lo: "1 \<le> n" and hi: "n < 4294967295"
      using d(1) mid(1) by (simp_all add: n_def)
    have "uint (of_nat n :: u32) = int n"
      using hi by (simp add: uint_nat unsigned_of_nat take_bit_nat_eq_self)
    with mid lo hi show ?thesis
      unfolding same D [symmetric] rnd tie ppm_in_range [OF d(1) mid, folded n_def] by simp
  next
    case top
    then have "4294967295 \<le> n"
      by (simp add: n_def less_eq_div_iff_mult_less_eq)
    with top show ?thesis
      unfolding same D [symmetric] rnd tie ppm_clamped [OF top] by simp
  qed
qed

section \<open>The claims\<close>

text \<open>
  Claim C1: whenever \<open>update_png_dpi\<close> assembles an output for an input whose chunk
  stream, scanned up to IEND, contains a chunk tagged IDAT, the chunk stream of the
  output contains exactly one chunk tagged pHYs, the synthesized one, and the chunk
  right after it is the first IDAT chunk of the output. This holds for every value
  of \<open>ppm\<close>, hence for every DPI.
\<close>

theorem C1_one_pHYs_before_first_IDAT:
  assumes "rebuild_png ppm input = Inr out"
    and "chunks_of (drop 8 input) = Some cs"
    and "\<exists>c\<in>set cs. c_type c = tag_IDAT"
  shows "\<exists>ocs pre post.
     chunks_of (drop 8 out) = Some ocs \<and>
     length (filter (\<lambda>c. c_type c = tag_pHYs) ocs) = 1 \<and>
     ocs = pre @ pHYs_chunk ppm # post \<and>
     c_type (pHYs_chunk ppm) = tag_pHYs \<and>
     (\<forall>c\<in>set pre. c_type c \<noteq> tag_IDAT) \<and>
     post \<noteq> [] \<and> c_type (hd post) = tag_IDAT"
proof -
  from rebuild_png_Inr [OF assms(1)] assms(2) have
    out: "out = PNG_SIG @ chunk_stream (patch_chunks ppm False cs)"
    and wf: "wf_stream (patch_chunks ppm False cs)" by auto
  define keep where "keep = filter (\<lambda>c. c_type c \<noteq> tag_pHYs) cs"
  define pre where "pre = takeWhile (\<lambda>c. c_type c \<noteq> tag_IDAT) keep"
  define post where "post = dropWhile (\<lambda>c. c_type c \<noteq> tag_IDAT) keep"
  define ocs where "ocs = pre @ pHYs_chunk ppm # post"
  from assms(3) have "\<exists>c\<in>set keep. c_type c = tag_IDAT"
    by (auto simp add: keep_def)
  then have ne: "post \<noteq> []"
    by (auto simp add: post_def)
  then have hd: "c_type (hd post) = tag_IDAT"
    unfolding post_def using hd_dropWhile [of "\<lambda>c. c_type c \<noteq> tag_IDAT" keep] by simp
  have ws: "patch_chunks ppm False cs = ocs"
    using ne by (simp add: patch_chunks_False Let_def keep_def pre_def post_def ocs_def)
  have "chunks_of (chunk_stream (patch_chunks ppm False cs) @ []) =
      Some (patch_chunks ppm False cs)"
    unfolding chunks_of_stream [OF wf] by (simp add: chunks_of_short)
  then have re: "chunks_of (drop 8 out) = Some ocs"
    by (simp add: out ws)
  have pre_ok: "\<forall>c\<in>set pre. c_type c \<noteq> tag_pHYs \<and> c_type c \<noteq> tag_IDAT"
    unfolding pre_def keep_def by (auto dest: set_takeWhileD)
  have post_ok: "\<forall>c\<in>set post. c_type c \<noteq> tag_pHYs"
    unfolding post_def keep_def by (auto dest: set_dropWhileD)
  have "filter (\<lambda>c. c_type c = tag_pHYs) pre = []"
    using pre_ok by (auto simp add: filter_empty_conv)
  moreover have "filter (\<lambda>c. c_type c = tag_pHYs) post = []"
    using post_ok by (auto simp add: filter_empty_conv)
  ultimately have one: "length (filter (\<lambda>c. c_type c = tag_pHYs) ocs) = 1"
    by (simp add: ocs_def)
  show ?thesis
    using re one ne hd pre_ok ocs_def by (intro exI [of _ ocs] exI [of _ pre] exI [of _ post]) simp
qed

theorem C1_one_pHYs_before_first_IDAT_witness:
  "rebuild_png 11811 sample_png = Inr sample_out \<and>
   chunks_of (drop 8 sample_png) = Some sample_chunks \<and>
   (\<exists>c\<in>set sample_chunks. c_type c = tag_IDAT) \<and>
   (\<exists>ocs pre post.
     chunks_of (drop 8 sample_out) = Some ocs \<and>
     length (filter (\<lambda>c. c_type c = tag_pHYs) ocs) = 1 \<and>
     ocs = pre @ pHYs_chunk 11811 # post \<and>
     c_type (pHYs_chunk 11811) = tag_pHYs \<and>
     (\<forall>c\<in>set pre. c_type c \<noteq> tag_IDAT) \<and>
     post \<noteq> [] \<and> c_type (hd post) = tag_IDAT)"
  using C1_one_pHYs_before_first_IDAT [OF sample_rebuild sample_chunks_of sample_has_IDAT]
    sample_rebuild sample_chunks_of sample_has_IDAT
  by simp

text \<open>
  Claim C2 as stated fails: for \<open>D = 24999873\<close> the exact product
  \<open>24999873 * 39.37007874 = 984246968.50212002\<close> has the single nearest integer
  984246969, and it lies within the 32-bit range, but \<open>_png_dpi_to_ppm\<close> returns
  984246968, which is more than one half away from the product: the binary64 factor
  is slightly below 39.37007874, the rounded product falls below the half, and
  adding 0.5 no longer reaches the next integer.
\<close>

theorem C2_rounding_counterexample:
  "uint (png_dpi_to_ppm 24999873) = 984246968 \<and>
   max 1 (min 4294967295
     (round (real_of_int (if (24999873::int) \<le> 0 then 1 else 24999873) * 39.37007874))) =
     984246969 \<and>
   1 / 2 < \<bar>real_of_int (uint (png_dpi_to_ppm 24999873)) - 24999873 * 39.37007874\<bar>"
proof -
  have r: "round (real_of_int (if (24999873::int) \<le> 0 then 1 else 24999873) * 39.37007874) =
      984246969"
    using round_as_div [of 24999873] by simp
  show ?thesis
    unfolding r by (simp add: ppm_at_24999873)
qed

text \<open>
  Claim C2 as amended: for every integer \<open>D\<close> other than 24999873, the value that
  \<open>_png_dpi_to_ppm\<close> returns, which is the value stored twice in the synthesized
  density chunk, is \<open>D' * 39.37007874\<close> rounded to the nearest integer and clamped
  to the range from 1 to \<open>2^32 - 1\<close>, where \<open>D'\<close> is 1 for a non-positive \<open>D\<close> and
  \<open>D\<close> otherwise. For \<open>D = 25000000\<close> and \<open>D = 75000000\<close> the product lies exactly
  halfway between two integers and the value is the lower of the two; for every
  other \<open>D\<close> the nearest integer is unique (\<open>round\<close> takes a half upwards, hence the
  subtraction of 1 at the two halves). In particular 300 gives 11811, 600 gives
  23622, 1200 gives 47244, and every non-positive \<open>D\<close> gives 39.
\<close>

theorem C2_ppm_is_rounded_product:
  assumes "D \<noteq> 24999873"
  shows "uint (png_dpi_to_ppm D) =
           max 1 (min 4294967295
             (round (real_of_int (if D \<le> 0 then 1 else D) * 39.37007874) -
              (if D = 25000000 \<or> D = 75000000 then 1 else 0))) \<and>
         png_read_u32_be (drop 8 (pHYs_bytes (png_dpi_to_ppm D))) = png_dpi_to_ppm D \<and>
         png_read_u32_be (drop 12 (pHYs_bytes (png_dpi_to_ppm D))) = png_dpi_to_ppm D \<and>
         png_dpi_to_ppm 300 = 11811 \<and> png_dpi_to_ppm 600 = 23622 \<and>
         png_dpi_to_ppm 1200 = 47244 \<and> png_dpi_to_ppm (- int k) = 39"
proof -
  have "png_dpi_to_ppm (- int k) = 39"
    by (rule ppm_scenarios(4)) simp
  with ppm_everywhere [OF assms] pHYs_bytes_stored [of "png_dpi_to_ppm D"] ppm_scenarios(1-3)
  show ?thesis by simp
qed

theorem C2_ppm_is_rounded_product_witness:
  "(300::int) \<noteq> 24999873 \<and>
   uint (png_dpi_to_ppm 300) =
     max 1 (min 4294967295
       (round (real_of_int (if (300::int) \<le> 0 then 1 else 300) * 39.37007874) -
        (if (300::int) = 25000000 \<or> (300::int) = 75000000 then 1 else 0))) \<and>
   png_read_u32_be (drop 8 (pHYs_bytes (png_dpi_to_ppm 300))) = png_dpi_to_ppm 300 \<and>
   png_read_u32_be (drop 12 (pHYs_bytes (png_dpi_to_ppm 300))) = png_dpi_to_ppm 300 \<and>
   png_dpi_to_ppm 300 = 11811 \<and> png_dpi_to_ppm 600 = 23622 \<and>
   png_dpi_to_ppm 1200 = 47244 \<and> png_dpi_to_ppm (- int 5) = 39"
proof -
  have h: "(300::int) \<noteq> 24999873" by simp
  from C2_ppm_is_rounded_product [OF h, of 5] h show ?thesis by blast
qed

text \<open>
  Claim C3: whenever \<open>update_png_dpi\<close> assembles an output, the output is the signature
  followed by a chunk stream whose chunks not tagged pHYs are, in the same order and
  byte for byte (length field, type, data and stored CRC as read), the chunks not
  tagged pHYs of the input; the output stream is that sequence with the synthesized
  pHYs chunk inserted in front of its first IDAT chunk, or that sequence itself when
  it has no IDAT chunk.
\<close>

theorem C3_other_chunks_verbatim:
  assumes "rebuild_png ppm input = Inr out"
  shows "\<exists>cs ocs.
     chunks_of (drop 8 input) = Some cs \<and>
     out = take 8 input @ chunk_stream ocs \<and>
     chunks_of (drop 8 out) = Some ocs \<and>
     filter (\<lambda>c. c_type c \<noteq> tag_pHYs) ocs = filter (\<lambda>c. c_type c \<noteq> tag_pHYs) cs \<and>
     ocs =
       (let keep = filter (\<lambda>c. c_type c \<noteq> tag_pHYs) cs;
            pre = takeWhile (\<lambda>c. c_type c \<noteq> tag_IDAT) keep;
            post = dropWhile (\<lambda>c. c_type c \<noteq> tag_IDAT) keep
        in if post = [] then pre else pre @ pHYs_chunk ppm # post)"
proof -
  from rebuild_png_Inr [OF assms] obtain cs where
    sig: "take 8 input = PNG_SIG" and cs: "chunks_of (drop 8 input) = Some cs"
    and out: "out = PNG_SIG @ chunk_stream (patch_chunks ppm False cs)"
    and wf: "wf_stream (patch_chunks ppm False cs)" by blast
  define ocs where "ocs = patch_chunks ppm False cs"
  have "chunks_of (chunk_stream ocs @ []) = Some ocs"
    unfolding chunks_of_stream [OF wf [folded ocs_def]] by (simp add: chunks_of_short)
  then have re: "chunks_of (drop 8 out) = Some ocs"
    by (simp add: out ocs_def)
  define keep where "keep = filter (\<lambda>c. c_type c \<noteq> tag_pHYs) cs"
  have shape: "ocs =
       (let pre = takeWhile (\<lambda>c. c_type c \<noteq> tag_IDAT) keep;
            post = dropWhile (\<lambda>c. c_type c \<noteq> tag_IDAT) keep
        in if post = [] then pre else pre @ pHYs_chunk ppm # post)"
    by (simp add: ocs_def patch_chunks_False Let_def keep_def)
  have nophys: "filter (\<lambda>c. c_type c \<noteq> tag_pHYs) xs = xs" if "set xs \<subseteq> set keep" for xs
    using that by (auto simp add: keep_def intro!: filter_True)
  have ft: "filter (\<lambda>c. c_type c \<noteq> tag_pHYs) (takeWhile (\<lambda>c. c_type c \<noteq> tag_IDAT) keep) =
      takeWhile (\<lambda>c. c_type c \<noteq> tag_IDAT) keep"
    by (rule nophys) (auto dest: set_takeWhileD)
  have fd: "filter (\<lambda>c. c_type c \<noteq> tag_pHYs) (dropWhile (\<lambda>c. c_type c \<noteq> tag_IDAT) keep) =
      dropWhile (\<lambda>c. c_type c \<noteq> tag_IDAT) keep"
    by (rule nophys) (auto dest: set_dropWhileD)
  have "filter (\<lambda>c. c_type c \<noteq> tag_pHYs) ocs =
      takeWhile (\<lambda>c. c_type c \<noteq> tag_IDAT) keep @ dropWhile (\<lambda>c. c_type c \<noteq> tag_IDAT) keep"
    unfolding shape Let_def by (simp add: ft fd)
  then have same: "filter (\<lambda>c. c_type c \<noteq> tag_pHYs) ocs = keep" by simp
  show ?thesis
    using cs re same shape sig out unfolding keep_def ocs_def by (auto simp add: Let_def)
qed

theorem C3_other_chunks_verbatim_witness:
  "rebuild_png 11811 sample_png = Inr sample_out \<and>
   (\<exists>cs ocs.
     chunks_of (drop 8 sample_png) = Some cs \<and>
     sample_out = take 8 sample_png @ chunk_stream ocs \<and>
     chunks_of (drop 8 sample_out) = Some ocs \<and>
     filter (\<lambda>c. c_type c \<noteq> tag_pHYs) ocs = filter (\<lambda>c. c_type c \<noteq> tag_pHYs) cs \<and>
     ocs =
       (let keep = filter (\<lambda>c. c_type c \<noteq> tag_pHYs) cs;
            pre = takeWhile (\<lambda>c. c_type c \<noteq> tag_IDAT) keep;
            post = dropWhile (\<lambda>c. c_type c \<noteq> tag_IDAT) keep
        in if post = [] then pre else pre @ pHYs_chunk 11811 # post))"
  using C3_other_chunks_verbatim [OF sample_rebuild] sample_rebuild
  by simp

text \<open>
  Claim C6: the rebuild is idempotent. Whenever a first application with a given
  \<open>ppm\<close> (the same DPI gives the same \<open>ppm\<close>) assembles an output, a second
  application to that output assembles the same bytes. For the file this means
  that a second call of \<open>update_png_dpi\<close> in which every library call succeeds
  leaves the file written by the first call byte for byte as it is (returning 4
  without writing when that file exceeds \<open>MAX_PNG_SIZE\<close>, and 0 otherwise).
\<close>

theorem C6_rebuild_idempotent:
  assumes "rebuild_png ppm input = Inr out"
  shows "rebuild_png ppm out = Inr out \<and>
         snd (update_png_dpi io_all_ok (fs(pa \<mapsto> out)) (Some pa) ppm) = fs(pa \<mapsto> out)"
proof -
  have again: "rebuild_png ppm out = Inr out"
    using assms by (rule rebuild_png_idem)
  have "snd (update_png_dpi io_all_ok (fs(pa \<mapsto> out)) (Some pa) ppm) = fs(pa \<mapsto> out)"
  proof (cases "length out \<le> MAX_PNG_SIZE")
    case True
    from update_all_ok [of "fs(pa \<mapsto> out)" pa out ppm, OF _ True] again
    show ?thesis by simp
  next
    case False
    then show ?thesis
      by (simp add: update_png_dpi_def io_all_ok_def)
  qed
  with again show ?thesis by simp
qed

theorem C6_rebuild_idempotent_witness:
  "rebuild_png 11811 sample_png = Inr sample_out \<and>
   rebuild_png 11811 sample_out = Inr sample_out \<and>
   snd (update_png_dpi io_all_ok [''page01.png'' \<mapsto> sample_out] (Some ''page01.png'') 11811) =
     [''page01.png'' \<mapsto> sample_out]"
  using C6_rebuild_idempotent [OF sample_rebuild, of Map.empty "''page01.png''"] sample_rebuild
  by simp

text \<open>
  Claim C4, which the code does not meet: a chunk whose declared length plus the 4
  CRC bytes exceeds the bytes left after its type field must abort the operation
  with status 21, also when the length is so large that \<open>len + 4\<close> wraps in 32 bits.
  In \<open>wrapped_pHYs_png\<close> the chunk after the signature declares \<open>0xFFFFFFFC\<close> data
  bytes and only 4 bytes follow its type field. The sum \<open>len + 4\<close> wraps to 0, the
  test passes, the chunk is dropped as a pHYs chunk, and the call returns 0 after
  overwriting the file with the bare signature.
\<close>

theorem C4_wrapped_length_not_rejected:
  "png_read_u32_be (drop 8 wrapped_pHYs_png) = 0xFFFFFFFC \<and>
   length (drop 16 wrapped_pHYs_png) = 4 \<and>
   unat (png_read_u32_be (drop 8 wrapped_pHYs_png)) + 4 > length (drop 16 wrapped_pHYs_png) \<and>
   png_read_u32_be (drop 8 wrapped_pHYs_png) + 4 = 0 \<and>
   rebuild_png ppm wrapped_pHYs_png = Inr PNG_SIG \<and>
   update_png_dpi io_all_ok [''page01.png'' \<mapsto> wrapped_pHYs_png] (Some ''page01.png'') ppm =
     (0, [''page01.png'' \<mapsto> PNG_SIG])"
proof -
  have "length wrapped_pHYs_png \<le> MAX_PNG_SIZE"
    by (simp add: wrapped_pHYs_png_def MAX_PNG_SIZE_def)
  from update_all_ok [of "[''page01.png'' \<mapsto> wrapped_pHYs_png]" "''page01.png''", OF _ this, of ppm]
  have "update_png_dpi io_all_ok [''page01.png'' \<mapsto> wrapped_pHYs_png] (Some ''page01.png'') ppm =
     (0, [''page01.png'' \<mapsto> PNG_SIG])"
    by (simp add: wrapped_pHYs_rebuild)
  moreover have "png_read_u32_be (drop 8 wrapped_pHYs_png) = 0xFFFFFFFC"
    by (simp add: wrapped_pHYs_png_def png_read_u32_be_def)
  moreover have "length (drop 16 wrapped_pHYs_png) = 4"
    by (simp add: wrapped_pHYs_png_def)
  ultimately show ?thesis
    by (simp add: wrapped_pHYs_rebuild)
qed

text \<open>
  Claim C5, which the code does not meet: for an input that fails chunk-structure
  validation the call is to return a nonzero status and to leave the bytes of the
  file as they were. \<open>wrapped_pHYs_png\<close> passes the signature check, and its only
  chunk declares \<open>0xFFFFFFFC\<close> data bytes, so its declared length plus the 12
  structural bytes exceeds the 12 bytes that follow the signature. With every
  library call succeeding the call returns 0, and the file, 20 bytes long before the
  call, holds the 8 bytes of the signature after it. The malformed test lets the
  chunk through because \<open>len + 4\<close> wraps in 32 bits, the defect shown for claim C4.
  Where the scan of the code does reject the input, the file is left as it was
  (lemma \<open>rejected_input_leaves_file\<close>).
\<close>

theorem C5_malformed_input_rewritten:
  "take 8 wrapped_pHYs_png = PNG_SIG \<and>
   length (drop 8 wrapped_pHYs_png) = 12 \<and>
   length (drop 8 wrapped_pHYs_png) < unat (png_read_u32_be (drop 8 wrapped_pHYs_png)) + 12 \<and>
   fst (update_png_dpi io_all_ok [''page01.png'' \<mapsto> wrapped_pHYs_png] (Some ''page01.png'') ppm) = 0 \<and>
   snd (update_png_dpi io_all_ok [''page01.png'' \<mapsto> wrapped_pHYs_png] (Some ''page01.png'') ppm)
     ''page01.png'' = Some PNG_SIG \<and>
   length wrapped_pHYs_png = 20 \<and> length PNG_SIG = 8"
proof -
  have "length wrapped_pHYs_png \<le> MAX_PNG_SIZE"
    by (simp add: wrapped_pHYs_png_def MAX_PNG_SIZE_def)
  from update_all_ok [of "[''page01.png'' \<mapsto> wrapped_pHYs_png]" "''page01.png''", OF _ this, of ppm]
  have "update_png_dpi io_all_ok [''page01.png'' \<mapsto> wrapped_pHYs_png] (Some ''page01.png'') ppm =
     (0, [''page01.png'' \<mapsto> PNG_SIG])"
    by (simp add: wrapped_pHYs_rebuild)
  moreover have "png_read_u32_be (drop 8 wrapped_pHYs_png) = 0xFFFFFFFC"
    by (simp add: wrapped_pHYs_png_def png_read_u32_be_def)
  moreover have "take 8 wrapped_pHYs_png = PNG_SIG" "length wrapped_pHYs_png = 20"
    "length PNG_SIG = 8"
    by (simp_all add: wrapped_pHYs_png_def PNG_SIG_def)
  ultimately show ?thesis
    by simp
qed

text \<open>
  Claim C7: for every \<open>ppm\<close>, hence every DPI, the encoder appends 21 bytes when there
  is room for them: the length field 0, 0, 0, 9 (big-endian 9), the type "pHYs", the
  four bytes of \<open>ppm\<close> most significant first, the same four bytes again, the unit
  byte 1, and the four bytes, most significant first, of the reference CRC-32 of the
  type and payload bytes. Being a function of \<open>ppm\<close> alone, the 21 bytes are the
  same in every call with the same \<open>ppm\<close>.
\<close>

theorem C7_pHYs_chunk_layout:
  assumes "length dst + 21 \<le> dst_cap"
  shows "\<exists>b0 b1 b2 b3 c0 c1 c2 c3.
     png_emit_pHYs_to_mem dst dst_cap ppm =
       Some (dst @ [0, 0, 0, 9] @ tag_pHYs @ [b0, b1, b2, b3, b0, b1, b2, b3, 1] @
             [c0, c1, c2, c3]) \<and>
     length ([0, 0, 0, 9] @ tag_pHYs @ [b0, b1, b2, b3, b0, b1, b2, b3, 1] @ [c0, c1, c2, c3]) = 21 \<and>
     unat ppm = unat b0 * 2 ^ 24 + unat b1 * 2 ^ 16 + unat b2 * 2 ^ 8 + unat b3 \<and>
     unat (crc32_reference (tag_pHYs @ [b0, b1, b2, b3, b0, b1, b2, b3, 1])) =
       unat c0 * 2 ^ 24 + unat c1 * 2 ^ 16 + unat c2 * 2 ^ 8 + unat c3"
proof -
  obtain b0 b1 b2 b3 where b: "png_write_u32_be ppm = [b0, b1, b2, b3]"
    by (simp add: png_write_u32_be_def)
  define payload where "payload = [b0, b1, b2, b3, b0, b1, b2, b3, 1]"
  define crc where "crc = png_crc32 payload (png_crc32 tag_pHYs 0)"
  obtain c0 c1 c2 c3 where c: "png_write_u32_be crc = [c0, c1, c2, c3]"
    by (simp add: png_write_u32_be_def)
  have nine: "png_write_u32_be 9 = [0, 0, 0, 9]"
    by (simp add: png_write_u32_be_def)
  have "crc = png_crc32 (tag_pHYs @ payload) 0"
    by (simp add: crc_def png_crc32_append)
  then have ref: "crc = crc32_reference (tag_pHYs @ payload)"
    by (simp add: png_crc32_def crc32_reference_def crc_update_is_ref)
  have "png_emit_pHYs_to_mem dst dst_cap ppm =
      Some (dst @ [0, 0, 0, 9] @ tag_pHYs @ payload @ [c0, c1, c2, c3])"
    using assms
    by (simp add: png_emit_pHYs_to_mem_def pHYs_bytes_def Let_def b nine payload_def
        c [unfolded crc_def payload_def])
  moreover note write_u32_big_endian [OF b] write_u32_big_endian [OF c, unfolded ref]
  ultimately show ?thesis
    unfolding payload_def by (intro exI conjI) simp_all
qed

theorem C7_pHYs_chunk_layout_witness:
  "length ([] :: u8 list) + 21 \<le> 21 \<and>
   (\<exists>b0 b1 b2 b3 c0 c1 c2 c3.
     png_emit_pHYs_to_mem [] 21 11811 =
       Some ([] @ [0, 0, 0, 9] @ tag_pHYs @ [b0, b1, b2, b3, b0, b1, b2, b3, 1] @
             [c0, c1, c2, c3]) \<and>
     length ([0, 0, 0, 9] @ tag_pHYs @ [b0, b1, b2, b3, b0, b1, b2, b3, 1] @ [c0, c1, c2, c3]) = 21 \<and>
     unat (11811 :: u32) = unat b0 * 2 ^ 24 + unat b1 * 2 ^ 16 + unat b2 * 2 ^ 8 + unat b3 \<and>
     unat (crc32_reference (tag_pHYs @ [b0, b1, b2, b3, b0, b1, b2, b3, 1])) =
       unat c0 * 2 ^ 24 + unat c1 * 2 ^ 16 + unat c2 * 2 ^ 8 + unat c3)"
proof -
  have h: "length ([] :: u8 list) + 21 \<le> 21" by simp
  from C7_pHYs_chunk_layout [OF h, of 11811] h show ?thesis by blast
qed




text \<open>
  Claim C10, which the code does not meet: for an input of at most \<open>MAX_PNG_SIZE\<close>
  bytes that passes the signature check, the return codes 22 and 23 are to be
  unreachable. \<open>wrapped_IHDR_png\<close> has 20 bytes and the signature; its chunk declares
  \<open>0xFFFFFFFC\<close> data bytes, the wrapped malformed test lets it through, and the
  capacity test then returns 23.
\<close>

theorem C10_capacity_code_reached:
  "length wrapped_IHDR_png \<le> MAX_PNG_SIZE \<and>
   take 8 wrapped_IHDR_png = PNG_SIG \<and>
   rebuild_png ppm wrapped_IHDR_png = Inl 23 \<and>
   update_png_dpi io_all_ok [''page01.png'' \<mapsto> wrapped_IHDR_png] (Some ''page01.png'') ppm =
     (23, [''page01.png'' \<mapsto> wrapped_IHDR_png])"
proof -
  have le: "length wrapped_IHDR_png \<le> MAX_PNG_SIZE"
    by (simp add: wrapped_IHDR_png_def MAX_PNG_SIZE_def)
  from update_all_ok [of "[''page01.png'' \<mapsto> wrapped_IHDR_png]" "''page01.png''", OF _ le, of ppm]
  show ?thesis
    using le by (simp add: wrapped_IHDR_rebuild) (simp add: wrapped_IHDR_png_def PNG_SIG_def)
qed

end
